theory Spec2Isabelle
  imports Complex_Main "HOL-Library.Sublist" "HOL-Library.Char_ord" "HOL-Library.List_Lexorder"
begin

section \<open>Python strings\<close>

text \<open>
  A Python \<open>str\<close> is modelled as a \<open>string\<close> whose characters are ASCII code points.
  The tables below are Python's for code points below 128: \<open>str.lower\<close> maps \<open>A-Z\<close> to
  \<open>a-z\<close>; \<open>str.strip\<close>, \<open>str.isspace\<close> and the regular expression class \<open>\s\<close> accept
  the code points 9 to 13, 28 to 31 and 32; the class \<open>\w\<close> accepts letters, digits and
  the underscore. Code points from 128 on follow Unicode tables that are not modelled,
  so a general statement that depends on these tables carries the hypothesis \<open>ascii\<close>.
\<close>

definition ascii :: "string \<Rightarrow> bool" where
  "ascii s = list_all (\<lambda>c. (of_char c :: nat) < 128) s"

definition is_space :: "char \<Rightarrow> bool" where
  "is_space c = (let n = (of_char c :: nat) in (9 \<le> n \<and> n \<le> 13) \<or> (28 \<le> n \<and> n \<le> 32))"

definition is_word :: "char \<Rightarrow> bool" where
  "is_word c = (let n = (of_char c :: nat) in
     (48 \<le> n \<and> n \<le> 57) \<or> (65 \<le> n \<and> n \<le> 90) \<or> n = 95 \<or> (97 \<le> n \<and> n \<le> 122))"

definition is_upper :: "char \<Rightarrow> bool" where
  "is_upper c = (65 \<le> (of_char c :: nat) \<and> (of_char c :: nat) \<le> 90)"

definition lower_char :: "char \<Rightarrow> char" where
  "lower_char c = (if is_upper c then char_of ((of_char c :: nat) + 32) else c)"

definition lower :: "string \<Rightarrow> string" where
  "lower s = map lower_char s"

definition strip :: "string \<Rightarrow> string" where
  "strip s = rev (dropWhile is_space (rev (dropWhile is_space s)))"

text \<open>
  \<open>s.replace(old, new)\<close>: every occurrence of \<open>old\<close>, found from the left and not
  overlapping an earlier one, is replaced by \<open>new\<close>. With an empty \<open>old\<close> Python puts
  \<open>new\<close> before every character and at the end.
\<close>

function replace :: "string \<Rightarrow> string \<Rightarrow> string \<Rightarrow> string" where
  "replace [] old new = (if old = [] then new else [])"
| "replace (c # cs) old new =
     (if old = [] then new @ c # replace cs old new
      else if prefix old (c # cs) then new @ replace (drop (length old) (c # cs)) old new
      else c # replace cs old new)"
  by pat_completeness auto
termination
  by (relation "measure (\<lambda>(s, old, new). length s)") auto

text \<open>\<open>re.sub(r'[^\w\s]', '', name)\<close> deletes every character that is neither a word
  character nor white space.\<close>

definition sub_punctuation :: "string \<Rightarrow> string" where
  "sub_punctuation s = filter (\<lambda>c. is_word c \<or> is_space c) s"

text \<open>\<open>re.sub(r'\s+', ' ', name)\<close> turns every maximal run of white space into one space.\<close>

function sub_whitespace :: "string \<Rightarrow> string" where
  "sub_whitespace [] = []"
| "sub_whitespace (c # cs) =
     (if is_space c then CHR '' '' # sub_whitespace (dropWhile is_space cs)
      else c # sub_whitespace cs)"
  by pat_completeness auto
termination
  by (relation "measure length") (auto simp: length_dropWhile_le less_Suc_eq_le)

section \<open>The name normalizer\<close>

text \<open>The dictionary \<open>replacements\<close> of \<open>normalize_school_name\<close>, in its insertion order,
  which is the order in which the loop applies it.\<close>

definition replacements :: "(string \<times> string) list" where
  "replacements =
    [('' elementary school'', '' es''),
     ('' middle school'', '' ms''),
     ('' high school'', '' hs''),
     ('' secondary school'', '' ss''),
     ('' elementary'', '' es''),
     ('' middle'', '' ms''),
     ('' high'', '' hs''),
     ('' secondary'', '' ss''),
     ('' school'', ''''),
     ('' center'', '' ctr''),
     ('' centre'', '' ctr''),
     ('' academy'', '' acad''),
     ('' alternative'', '' alt''),
     ('' international'', '' intl''),
     ('' magnet'', '' mag''),
     ('' charter'', '' chtr''),
     ('' campus'', ''''),
     ('' facility'', ''''),
     ('' program'', '''')]"

definition apply_replacements :: "(string \<times> string) list \<Rightarrow> string \<Rightarrow> string" where
  "apply_replacements rs name = fold (\<lambda>(old, new) name. replace name old new) rs name"

text \<open>A cell of a table holds a string or is missing (\<open>NaN\<close>, for which \<open>pd.isna\<close>
  holds): \<open>None\<close> is the missing value.\<close>

definition normalize_school_name :: "string option \<Rightarrow> string" where
  "normalize_school_name name =
     (case name of
        None \<Rightarrow> ''''
      | Some n \<Rightarrow>
          strip (sub_whitespace (sub_punctuation (apply_replacements replacements (strip (lower n))))))"

text \<open>A text in which white space occurs only as single blanks: the shape that
  \<open>sub_whitespace\<close> produces.\<close>

fun single_spaced :: "string \<Rightarrow> bool" where
  "single_spaced [] = True"
| "single_spaced [c] = (if is_space c then c = CHR '' '' else True)"
| "single_spaced (c # d # cs) =
     ((if is_space c then c = CHR '' '' \<and> \<not> is_space d else True) \<and> single_spaced (d # cs))"

section \<open>Exceptions and JSON values\<close>

text \<open>
  The exceptions the program can meet: \<open>ValueError\<close> with its message,
  \<open>json.JSONDecodeError\<close> (a \<open>ValueError\<close> raised by \<open>json.loads\<close> on a text it rejects),
  \<open>RequestError\<close> for whatever \<open>requests.post\<close> or the decoding of its reply raises,
  and the \<open>AttributeError\<close> and \<open>TypeError\<close> that pandas raises.
\<close>

datatype error = ValueError string | JSONDecodeError | RequestError | AttributeError | TypeError

text \<open>
  The values that \<open>json.loads\<close> returns: \<open>None\<close> for \<open>null\<close>, a truth value, a number
  (an integer or a float, which is a rational number, an infinity or \<open>NaN\<close>), a string,
  a list or a dictionary.
\<close>

datatype number = Finite rat | PlusInfinity | MinusInfinity | NaN

datatype jval =
    JNull
  | JBool bool
  | JNum number
  | JStr string
  | JArray "jval list"
  | JObject "(string \<times> jval) list"

text \<open>A name mapping is a Python \<open>dict\<close> with string keys. The resolver is asked for
  names, but the values of its reply are whatever JSON values the reply holds.\<close>

type_synonym dict = "string \<rightharpoonup> jval"

text \<open>
  \<open>json.loads\<close> belongs to the Python library and is a parameter of the model:
  \<open>loads s = None\<close> when \<open>json.loads(s)\<close> raises, and \<open>Some d\<close> when it returns the
  dictionary \<open>d\<close>. The program only passes it texts that begin with an opening brace,
  for which a successful result is always a dictionary.
\<close>

type_synonym json_loads = "string \<Rightarrow> dict option"

section \<open>The brace scanner \<open>extract_json_dict\<close>\<close>

text \<open>\<open>text.find(c)\<close>: the index of the first occurrence, \<open>None\<close> for Python's \<open>-1\<close>.\<close>

definition find_char :: "char \<Rightarrow> string \<Rightarrow> nat option" where
  "find_char c text = (if c \<in> set text then Some (length (takeWhile (\<lambda>d. d \<noteq> c) text)) else None)"

text \<open>\<open>text[start:stop]\<close> for \<open>0 \<le> start\<close> and \<open>0 \<le> stop\<close>.\<close>

definition slice :: "string \<Rightarrow> nat \<Rightarrow> nat \<Rightarrow> string" where
  "slice text start stop = take (stop - start) (drop start text)"

text \<open>The two statements that end the scan at the closing brace at index \<open>k\<close>:
  \<open>json.loads(json_str)\<close>, which may raise, and \<open>return json_str\<close>.\<close>

definition finish :: "json_loads \<Rightarrow> string \<Rightarrow> nat \<Rightarrow> nat \<Rightarrow> error + string" where
  "finish loads text start k =
     (case loads (slice text start (k + 1)) of
        None \<Rightarrow> Inl JSONDecodeError
      | Some d \<Rightarrow> Inr (slice text start (k + 1)))"

text \<open>
  The loop \<open>for i in range(start, len(text))\<close> with its three variables. The double quote
  is \<open>CHR 0x22\<close> and the backslash \<open>CHR 0x5C\<close>. The branch of the backslash ends in
  \<open>continue\<close> and so keeps \<open>escape\<close> set; every other path through the body ends in
  \<open>escape = False\<close>.
\<close>

function scan_loop ::
  "json_loads \<Rightarrow> string \<Rightarrow> nat \<Rightarrow> nat \<Rightarrow> int \<Rightarrow> bool \<Rightarrow> bool \<Rightarrow> error + string" where
  "scan_loop loads text start i brace_count in_str escape =
     (if i < length text then
        (if text ! i = CHR 0x22 \<and> \<not> escape then
           scan_loop loads text start (i + 1) brace_count (\<not> in_str) False
         else if text ! i = CHR 0x5C \<and> \<not> escape then
           scan_loop loads text start (i + 1) brace_count in_str True
         else if \<not> in_str then
           (if text ! i = CHR ''{'' then
              scan_loop loads text start (i + 1) (brace_count + 1) in_str False
            else if text ! i = CHR ''}'' then
              (if brace_count - 1 = 0 then finish loads text start i
               else scan_loop loads text start (i + 1) (brace_count - 1) in_str False)
            else scan_loop loads text start (i + 1) brace_count in_str False)
         else scan_loop loads text start (i + 1) brace_count in_str False)
      else Inl (ValueError ''No valid JSON found.''))"
  by pat_completeness auto
termination
  by (relation "measure (\<lambda>(loads, text, start, i, brace_count, in_str, escape). length text - i)") auto

declare scan_loop.simps [simp del]

definition extract_json_dict :: "json_loads \<Rightarrow> string \<Rightarrow> error + string" where
  "extract_json_dict loads text =
     (case find_char (CHR ''{'') text of
        None \<Rightarrow> Inl (ValueError ''No opening brace found.'')
      | Some start \<Rightarrow> scan_loop loads text start start 0 False False)"

subsection \<open>What the scanner is meant to find\<close>

text \<open>
  The description of the result, independent of the loop. Reading a character moves the
  quote state \<open>(in_str, escape)\<close>: an unescaped double quote opens or closes a string
  literal, an unescaped backslash escapes the next character.
\<close>

fun quote_step :: "bool \<times> bool \<Rightarrow> char \<Rightarrow> bool \<times> bool" where
  "quote_step (in_str, escape) c =
     (if c = CHR 0x22 \<and> \<not> escape then (\<not> in_str, False)
      else if c = CHR 0x5C \<and> \<not> escape then (in_str, True)
      else (in_str, False))"

text \<open>The quote state in which the character at index \<open>i\<close> is read, the scan having
  begun at \<open>start\<close>.\<close>

definition quote_state :: "string \<Rightarrow> nat \<Rightarrow> nat \<Rightarrow> bool \<times> bool" where
  "quote_state text start i = foldl quote_step (False, False) (slice text start i)"

text \<open>The character at index \<open>i\<close> lies inside a string literal.\<close>

definition inside_literal :: "string \<Rightarrow> nat \<Rightarrow> nat \<Rightarrow> bool" where
  "inside_literal text start i = fst (quote_state text start i)"

text \<open>What the character at index \<open>i\<close> adds to the brace depth: a brace counts only
  outside string literals.\<close>

definition brace_delta :: "string \<Rightarrow> nat \<Rightarrow> nat \<Rightarrow> int" where
  "brace_delta text start i =
     (if inside_literal text start i then 0
      else if text ! i = CHR ''{'' then 1
      else if text ! i = CHR ''}'' then - 1
      else 0)"

text \<open>The brace depth after the characters at the indices \<open>start, \<dots>, i - 1\<close>.\<close>

definition depth :: "string \<Rightarrow> nat \<Rightarrow> nat \<Rightarrow> int" where
  "depth text start i = sum_list (map (brace_delta text start) [start..<i])"

text \<open>Index \<open>i\<close> holds a closing brace outside string literals that brings the depth
  back to zero.\<close>

definition closes :: "string \<Rightarrow> nat \<Rightarrow> nat \<Rightarrow> bool" where
  "closes text start i =
     (i < length text \<and> text ! i = CHR ''}'' \<and> \<not> inside_literal text start i \<and>
      depth text start (i + 1) = 0)"

text \<open>The first such index from \<open>start\<close> on, as a search and as a predicate.\<close>

definition closing_index :: "string \<Rightarrow> nat \<Rightarrow> nat option" where
  "closing_index text start = find (closes text start) [start..<length text]"

definition first_closing :: "string \<Rightarrow> nat \<Rightarrow> nat \<Rightarrow> bool" where
  "first_closing text start k =
     (start \<le> k \<and> closes text start k \<and> list_all (\<lambda>j. \<not> closes text start j) [start..<k])"

text \<open>Index \<open>start\<close> holds the first opening brace of the text.\<close>

definition first_brace :: "string \<Rightarrow> nat \<Rightarrow> bool" where
  "first_brace text start =
     (start < length text \<and> text ! start = CHR ''{'' \<and> CHR ''{'' \<notin> set (take start text))"

section \<open>The fuzzy matcher\<close>

text \<open>
  \<open>SequenceMatcher(None, a, b).ratio()\<close> belongs to Python's \<open>difflib\<close> and is a
  parameter of the model. A ratio is \<open>2 * M / T\<close> for the number \<open>M\<close> of matched
  characters and the total length \<open>T\<close>, and \<open>1.0\<close> when \<open>T = 0\<close>; it is modelled as
  a rational number, which orders and compares as the floating-point quotient does for
  texts of any realistic length.
\<close>

type_synonym similarity = "string \<Rightarrow> string \<Rightarrow> rat"

text \<open>The inner loop over \<open>excel_names\<close>, on the pair \<open>(best_match, best_score)\<close>.\<close>

fun best_match_loop ::
  "similarity \<Rightarrow> rat \<Rightarrow> string \<Rightarrow> string list \<Rightarrow> string option \<times> rat \<Rightarrow> string option \<times> rat" where
  "best_match_loop ratio threshold csv_name [] (best_match, best_score) = (best_match, best_score)"
| "best_match_loop ratio threshold csv_name (excel_name # rest) (best_match, best_score) =
     (if ratio csv_name excel_name > best_score \<and> ratio csv_name excel_name \<ge> threshold
      then best_match_loop ratio threshold csv_name rest (Some excel_name, ratio csv_name excel_name)
      else best_match_loop ratio threshold csv_name rest (best_match, best_score))"

text \<open>\<open>if best_match:\<close> tests the truth value of \<open>best_match\<close>: \<open>None\<close> and the empty
  string are both false.\<close>

definition truthy :: "string option \<Rightarrow> bool" where
  "truthy best_match = (case best_match of None \<Rightarrow> False | Some b \<Rightarrow> b \<noteq> [])"

text \<open>The outer loop over \<open>csv_names\<close>, on the dictionary \<open>matches\<close>.\<close>

fun fuzzy_loop ::
  "similarity \<Rightarrow> rat \<Rightarrow> string list \<Rightarrow> string list \<Rightarrow> (string \<rightharpoonup> string) \<Rightarrow> (string \<rightharpoonup> string)" where
  "fuzzy_loop ratio threshold [] excel_names matches = matches"
| "fuzzy_loop ratio threshold (csv_name # rest) excel_names matches =
     (case best_match_loop ratio threshold csv_name excel_names (None, 0) of
        (best_match, best_score) \<Rightarrow>
          (if truthy best_match
           then fuzzy_loop ratio threshold rest excel_names (matches(csv_name \<mapsto> the best_match))
           else fuzzy_loop ratio threshold rest excel_names matches))"

definition fuzzy_match_schools ::
  "similarity \<Rightarrow> string list \<Rightarrow> string list \<Rightarrow> rat \<Rightarrow> (string \<rightharpoonup> string)" where
  "fuzzy_match_schools ratio csv_names excel_names threshold =
     fuzzy_loop ratio threshold csv_names excel_names Map.empty"

text \<open>The default \<open>threshold=0.8\<close>.\<close>

definition default_threshold :: rat where
  "default_threshold = 8 / 10"

subsection \<open>The target a name is meant to be matched to\<close>

text \<open>\<open>b\<close> is the first-encountered target name that attains the maximum ratio against
  \<open>s\<close>: it stands at some index of \<open>excel_names\<close>, no target has a greater ratio, and
  every target before that index has a smaller one.\<close>

definition first_best :: "similarity \<Rightarrow> string \<Rightarrow> string list \<Rightarrow> string \<Rightarrow> bool" where
  "first_best ratio s excel_names b =
     list_ex (\<lambda>i. excel_names ! i = b \<and>
                list_all (\<lambda>c. ratio s c \<le> ratio s b) excel_names \<and>
                list_all (\<lambda>c. ratio s c < ratio s b) (take i excel_names))
             [0..<length excel_names]"

text \<open>A similarity for running the model on examples: it is the ratio of \<open>difflib\<close> on
  two equal texts (\<open>1.0\<close>) and on two texts without a common character (\<open>0.0\<close>), the
  only pairs the examples below use.\<close>

definition example_ratio :: similarity where
  "example_ratio a b = (if a = b then 1 else 0)"

section \<open>The resolver \<open>get_name_mapping\<close>\<close>

text \<open>
  The language-model service is outside the program. \<open>post w prompt\<close> is the outcome of one
  request in the state \<open>w\<close> of the outside world: the text of the reply, or an exception,
  and the next state of the world. The model also keeps the list of the prompts sent.
\<close>

type_synonym 'w service = "'w \<Rightarrow> string \<Rightarrow> (error + string) \<times> 'w"

record 'w net =
  world :: 'w
  sent :: "string list"

definition query_ollama :: "'w service \<Rightarrow> 'w net \<Rightarrow> string \<Rightarrow> (error + string) \<times> 'w net" where
  "query_ollama post n prompt =
     (case post (world n) prompt of
        (reply, w) \<Rightarrow> (reply, \<lparr>world = w, sent = sent n @ [prompt]\<rparr>))"

text \<open>\<open>json.dumps\<close> of a list of strings is a parameter as well.\<close>

type_synonym json_dumps = "string list \<Rightarrow> string"

definition newline :: string where
  "newline = [CHR 0x0A]"

text \<open>The prompt of one chunk, the f-string of the source line by line.\<close>

definition build_prompt :: "json_dumps \<Rightarrow> string list \<Rightarrow> string list \<Rightarrow> string" where
  \<open>build_prompt dumps known_names chunk = concat
     [newline,
      ''You are helping match school names. Here are the official school names:'', newline,
      dumps known_names, newline,
      newline,
      ''Match each dataset name to the closest official name. Consider:'', newline,
      ''- "Elementary" = "ES", "Middle" = "MS", "High" = "HS"'', newline,
      ''- Ignore minor spelling differences'', newline,
      ''- Focus on the core school name'', newline,
      newline,
      ''Dataset names to match:'', newline,
      dumps chunk, newline,
      newline,
      ''Return ONLY valid JSON (use double quotes):'', newline,
      ''{'', newline,
      ''    "dataset_name_1": "official_name_1",'', newline,
      ''    "dataset_name_2": "official_name_2"'', newline,
      ''}'', newline,
      newline,
      ''Examples:'', newline,
      ''- "aldrin elementary" should match "aldrin es"'', newline,
      ''- "washington middle school" should match "washington ms"'', newline]\<close>

text \<open>\<open>range(0, n, step)\<close>: an exception for the step zero, no index for a negative step.\<close>

definition range_step :: "nat \<Rightarrow> int \<Rightarrow> error + nat list" where
  "range_step n step =
     (if step = 0 then Inl (ValueError ''range() arg 3 must not be zero'')
      else if step < 0 then Inr []
      else Inr (map (\<lambda>k. k * nat step) [0..<(n + nat step - 1) div nat step]))"

text \<open>The body of the \<open>try\<close> statement: the dictionary of the reply, or \<open>None\<close> when
  \<open>extract_json_dict\<close> or \<open>json.loads\<close> raises and the \<open>except\<close> clause skips the batch.\<close>

definition parse_reply :: "json_loads \<Rightarrow> string \<Rightarrow> dict option" where
  "parse_reply loads response =
     (case extract_json_dict loads response of
        Inl e \<Rightarrow> None
      | Inr dict_str \<Rightarrow> loads dict_str)"

text \<open>The loop over the start indices of the chunks. An exception of \<open>query_ollama\<close> is
  raised outside the \<open>try\<close> statement and ends the call.\<close>

fun chunk_loop ::
  "'w service \<Rightarrow> json_loads \<Rightarrow> json_dumps \<Rightarrow> string list \<Rightarrow> string list \<Rightarrow> nat \<Rightarrow>
   nat list \<Rightarrow> dict \<Rightarrow> 'w net \<Rightarrow> (error + dict) \<times> 'w net" where
  "chunk_loop post loads dumps known_names csv_names batch_size [] mapping n = (Inr mapping, n)"
| "chunk_loop post loads dumps known_names csv_names batch_size (i # rest) mapping n =
     (case query_ollama post n
             (build_prompt dumps known_names (take batch_size (drop i csv_names))) of
        (Inl e, n') \<Rightarrow> (Inl e, n')
      | (Inr response, n') \<Rightarrow>
          (case parse_reply loads response of
             None \<Rightarrow>
               chunk_loop post loads dumps known_names csv_names batch_size rest mapping n'
           | Some chunk_mapping \<Rightarrow>
               chunk_loop post loads dumps known_names csv_names batch_size rest
                 (mapping ++ chunk_mapping) n'))"

definition get_name_mapping ::
  "'w service \<Rightarrow> json_loads \<Rightarrow> json_dumps \<Rightarrow> string list \<Rightarrow> string list \<Rightarrow> int \<Rightarrow>
   'w net \<Rightarrow> (error + dict) \<times> 'w net" where
  "get_name_mapping post loads dumps known_names csv_names batch_size n =
     (case range_step (length csv_names) batch_size of
        Inl e \<Rightarrow> (Inl e, n)
      | Inr starts \<Rightarrow>
          chunk_loop post loads dumps known_names csv_names (nat batch_size) starts Map.empty n)"

text \<open>The default \<open>batch_size=15\<close>.\<close>

definition default_batch_size :: int where
  "default_batch_size = 15"

subsection \<open>What the resolver is meant to do\<close>

text \<open>The consecutive chunks of a list.\<close>

function chunks :: "nat \<Rightarrow> 'a list \<Rightarrow> 'a list list" where
  "chunks k xs = (if k = 0 \<or> xs = [] then [] else take k xs # chunks k (drop k xs))"
  by pat_completeness auto
termination
  by (relation "measure (\<lambda>(k, xs). length xs)") auto

declare chunks.simps [simp del]

text \<open>The replies to a list of prompts sent one after the other, as long as no request
  raises, and the state of the world afterwards.\<close>

fun replies :: "'w service \<Rightarrow> 'w \<Rightarrow> string list \<Rightarrow> (error + string) list \<times> 'w" where
  "replies post w [] = ([], w)"
| "replies post w (p # ps) =
     (case post w p of
        (Inl e, w') \<Rightarrow> ([Inl e], w')
      | (Inr r, w') \<Rightarrow> (case replies post w' ps of (rs, w'') \<Rightarrow> (Inr r # rs, w'')))"

text \<open>The dictionaries of the replies that parse, merged in their order: a reply that
  does not parse adds nothing.\<close>

definition merge_step :: "json_loads \<Rightarrow> dict \<Rightarrow> error + string \<Rightarrow> dict" where
  "merge_step loads m r =
     (case r of
        Inl e \<Rightarrow> m
      | Inr response \<Rightarrow> (case parse_reply loads response of None \<Rightarrow> m | Some d \<Rightarrow> m ++ d))"

definition merge_parsed :: "json_loads \<Rightarrow> (error + string) list \<Rightarrow> dict" where
  "merge_parsed loads rs = foldl (merge_step loads) Map.empty rs"

section \<open>The tables and \<open>process_dataset\<close>\<close>

text \<open>
  A data frame is the list of its rows, as \<open>read_csv\<close> and \<open>read_excel\<close> have loaded
  them. A row of the source table has the column \<open>School_Name\<close>, whose cells hold a string
  or are missing, and its other columns \<open>csv_columns\<close>; a row of the target table has the
  column \<open>School Name\<close> and its other columns.
\<close>

record 'a csv_row =
  School_Name :: "string option"
  csv_columns :: 'a

record 'b excel_row =
  School_Name_excel :: "string option"
  excel_columns :: 'b

text \<open>The rows after the columns \<open>Original_School_Name\<close> and \<open>Normalized_School_Name\<close>
  have been added, named as the merged frame names them (suffixes \<open>_csv\<close> and \<open>_excel\<close>).\<close>

record 'a csv_named =
  csv_source :: "'a csv_row"
  Original_School_Name_csv :: "string option"
  Normalized_School_Name_csv :: string

record 'b excel_named =
  excel_source :: "'b excel_row"
  Original_School_Name_excel :: "string option"
  Normalized_School_Name_excel :: string

text \<open>A source row after the column \<open>Mapped_Normalized_Name\<close> has been added.\<close>

record 'a csv_mapped =
  csv_named :: "'a csv_named"
  Mapped_Normalized_Name :: jval

text \<open>The names of a table are ASCII texts, the texts on which the string operations of
  the model are Python's.\<close>

definition ascii_cell :: "string option \<Rightarrow> bool" where
  "ascii_cell v = (case v of None \<Rightarrow> True | Some s \<Rightarrow> ascii s)"

definition ascii_names :: "'a csv_row list \<Rightarrow> 'b excel_row list \<Rightarrow> bool" where
  "ascii_names csv_df excel_df =
     (list_all (\<lambda>r. ascii_cell (School_Name r)) csv_df \<and>
      list_all (\<lambda>r. ascii_cell (School_Name_excel r)) excel_df)"

definition test_schools :: "string list" where
  "test_schools = [''Test Site Elementary School'', ''Test Site Elementary'', ''test site elementary school'']"

text \<open>\<open>csv_df[~csv_df['School_Name'].isin(test_schools)]\<close>; a missing value is in no list
  of strings.\<close>

definition isin :: "string option \<Rightarrow> string list \<Rightarrow> bool" where
  "isin v names = (case v of None \<Rightarrow> False | Some s \<Rightarrow> s \<in> set names)"

definition filter_test_schools :: "'a csv_row list \<Rightarrow> 'a csv_row list" where
  "filter_test_schools csv_df = filter (\<lambda>r. \<not> isin (School_Name r) test_schools) csv_df"

text \<open>
  A loaded column that has rows and no string in any of them has the type \<open>float64\<close>,
  and the accessor \<open>.str\<close> raises \<open>AttributeError\<close> on it. The type of a column is that
  of the loaded table, also after rows have been filtered out. On a column of strings and
  missing values \<open>.str.strip()\<close> keeps a missing value missing.
\<close>

definition float_column :: "string option list \<Rightarrow> bool" where
  "float_column column = (column \<noteq> [] \<and> list_all (\<lambda>v. v = None) column)"

definition name_csv_row :: "'a csv_row \<Rightarrow> 'a csv_named" where
  "name_csv_row r =
     \<lparr>csv_source = r,
      Original_School_Name_csv = map_option strip (School_Name r),
      Normalized_School_Name_csv = normalize_school_name (map_option strip (School_Name r))\<rparr>"

definition name_excel_row :: "'b excel_row \<Rightarrow> 'b excel_named" where
  "name_excel_row r =
     \<lparr>excel_source = r,
      Original_School_Name_excel = map_option strip (School_Name_excel r),
      Normalized_School_Name_excel = normalize_school_name (map_option strip (School_Name_excel r))\<rparr>"

text \<open>\<open>sorted(column.unique())\<close>; Python orders strings by their code points, as the
  lexicographic order on \<open>string\<close> does.\<close>

definition sorted_unique :: "string list \<Rightarrow> string list" where
  "sorted_unique names = sort (remdups names)"

text \<open>The dictionary comprehension over \<open>csv_names\<close>; \<open>if cached_mapping:\<close> is false for
  \<open>None\<close> and for the empty dictionary, for which the comprehension is empty as well.\<close>

definition cached_matches_of :: "dict option \<Rightarrow> string list \<Rightarrow> dict" where
  "cached_matches_of cached_mapping csv_names =
     (case cached_mapping of
        None \<Rightarrow> Map.empty
      | Some cached \<Rightarrow> (\<lambda>name. if name \<in> set csv_names then cached name else None))"

text \<open>\<open>{**cached_matches, **fuzzy_matches, **ollama_mapping}\<close>: a new dictionary that
  receives the entries of the three dictionaries one dictionary after the other.\<close>

definition combine_mappings :: "dict \<Rightarrow> dict \<Rightarrow> dict \<Rightarrow> dict" where
  "combine_mappings cached_matches fuzzy_matches ollama_mapping =
     ((Map.empty ++ cached_matches) ++ fuzzy_matches) ++ ollama_mapping"

text \<open>
  \<open>Series.map(final_mapping)\<close> is missing where the name is no key and is the value of
  the key otherwise, whatever that value is; \<open>fillna\<close> then puts the normalized name
  wherever the result is missing, and the values \<open>None\<close> and \<open>NaN\<close> of a key are
  missing values too.
\<close>

definition isna :: "jval \<Rightarrow> bool" where
  "isna v = (v = JNull \<or> v = JNum NaN)"

definition map_fillna :: "dict \<Rightarrow> string \<Rightarrow> jval" where
  "map_fillna final_mapping normalized =
     (case final_mapping normalized of
        None \<Rightarrow> JStr normalized
      | Some v \<Rightarrow> if isna v then JStr normalized else v)"

definition map_csv_row :: "dict \<Rightarrow> 'a csv_named \<Rightarrow> 'a csv_mapped" where
  "map_csv_row final_mapping r =
     \<lparr>csv_named = r,
      Mapped_Normalized_Name = map_fillna final_mapping (Normalized_School_Name_csv r)\<rparr>"

text \<open>
  \<open>left.merge(right, how='left', left_on=..., right_on=...)\<close> of pandas, the left outer
  join: in the order of the left rows, a left row is paired with every right row of the
  same key, in the order of the right rows, and a left row without such a right row
  appears once, with missing values in all columns of the right table (\<open>None\<close>).
\<close>

definition joined :: "'l \<Rightarrow> 'r list \<Rightarrow> ('l \<times> 'r option) list" where
  "joined l matching =
     (case matching of [] \<Rightarrow> [(l, None)] | r # rest \<Rightarrow> map (\<lambda>r. (l, Some r)) (r # rest))"

definition merge_left ::
  "'l list \<Rightarrow> 'r list \<Rightarrow> ('l \<Rightarrow> 'k) \<Rightarrow> ('r \<Rightarrow> 'k) \<Rightarrow> ('l \<times> 'r option) list" where
  "merge_left left right left_on right_on =
     concat (map (\<lambda>l. joined l (filter (\<lambda>r. right_on r = left_on l) right)) left)"

text \<open>
  Before it joins, pandas inspects the two key columns and may refuse them: it raises
  for a key that cannot be hashed (a list or a dictionary) and for a column of numbers
  set against a column of strings. This inspection belongs to pandas and is a parameter
  of the model: \<open>validate left_keys right_keys\<close> is the exception raised, if any.
\<close>

type_synonym key_validation = "jval list \<Rightarrow> string list \<Rightarrow> error option"

text \<open>
  \<open>process_dataset\<close> from the two loaded tables on; reading and writing the files and
  the printed report are left out. It returns the merged frame and \<open>final_mapping\<close>, or
  the exception raised by \<open>.str\<close>, by a request or by the merge.
\<close>

definition process_dataset ::
  "similarity \<Rightarrow> 'w service \<Rightarrow> json_loads \<Rightarrow> json_dumps \<Rightarrow> key_validation \<Rightarrow>
   'a csv_row list \<Rightarrow> 'b excel_row list \<Rightarrow> dict option \<Rightarrow> 'w net \<Rightarrow>
   (error + ('a csv_mapped \<times> 'b excel_named option) list \<times> dict) \<times> 'w net" where
  "process_dataset ratio post loads dumps validate csv_df excel_df cached_mapping n =
     (if float_column (map School_Name csv_df) then (Inl AttributeError, n)
      else if float_column (map School_Name_excel excel_df) then (Inl AttributeError, n)
      else
       (let csv_df = map name_csv_row (filter_test_schools csv_df);
            excel_df = map name_excel_row excel_df;
            csv_names = sorted_unique (map Normalized_School_Name_csv csv_df);
            excel_names = sorted_unique (map Normalized_School_Name_excel excel_df);
            cached_matches = cached_matches_of cached_mapping csv_names;
            unmatched_names = filter (\<lambda>name. cached_matches name = None) csv_names;
            fuzzy_matches = fuzzy_match_schools ratio unmatched_names excel_names default_threshold;
            still_unmatched = filter (\<lambda>name. fuzzy_matches name = None) unmatched_names
        in case (if still_unmatched \<noteq> []
                 then get_name_mapping post loads dumps excel_names still_unmatched
                        default_batch_size n
                 else (Inr Map.empty, n)) of
             (Inl e, n') \<Rightarrow> (Inl e, n')
           | (Inr ollama_mapping, n') \<Rightarrow>
               (let final_mapping =
                      combine_mappings cached_matches (map_option JStr \<circ> fuzzy_matches)
                        ollama_mapping;
                    csv_df = map (map_csv_row final_mapping) csv_df
                in case validate (map Mapped_Normalized_Name csv_df)
                          (map Normalized_School_Name_excel excel_df) of
                     Some e \<Rightarrow> (Inl e, n')
                   | None \<Rightarrow>
                       (Inr (merge_left csv_df excel_df Mapped_Normalized_Name
                               (JStr \<circ> Normalized_School_Name_excel),
                             final_mapping), n'))))"

text \<open>A service, a \<open>json.loads\<close>, a \<open>json.dumps\<close> and a key inspection for running
  the model on examples. The state of the service is the list of the replies it has yet
  to give, and a request to the exhausted service fails. \<open>example_loads\<close> is
  \<open>json.loads\<close> on the two objects the examples use and on texts that are no JSON.
  \<open>example_dumps\<close> is \<open>json.dumps\<close> on lists of strings that need no escape, as all
  normalized names are. \<open>example_validate\<close> is the inspection of pandas on key columns
  that hold strings only, which it accepts.\<close>

definition example_validate :: key_validation where
  "example_validate left_keys right_keys = None"

definition example_service :: "string list service" where
  "example_service w prompt =
     (case w of [] \<Rightarrow> (Inl RequestError, []) | reply # rest \<Rightarrow> (Inr reply, rest))"

definition example_loads :: json_loads where
  \<open>example_loads s =
     (if s = ''{"a": null}'' then Some [''a'' \<mapsto> JNull]
      else if s = ''{"a": "}"}'' then Some [''a'' \<mapsto> JStr ''}'']
      else None)\<close>

fun join :: "string \<Rightarrow> string list \<Rightarrow> string" where
  "join separator [] = []"
| "join separator [s] = s"
| "join separator (s # t # rest) = s @ separator @ join separator (t # rest)"

definition example_dumps :: json_dumps where
  "example_dumps names =
     ''['' @ join '', '' (map (\<lambda>s. [CHR 0x22] @ s @ [CHR 0x22]) names) @ '']''"

section \<open>Properties of the name normalizer\<close>

subsection \<open>The string operations\<close>

lemma rev_dropWhile_rev:
  "rev (dropWhile P (rev u)) = take (length u - length (takeWhile P (rev u))) u"
  by (simp add: dropWhile_eq_drop rev_drop)

lemma dropWhile_strip: "dropWhile is_space (strip s) = strip s"
proof -
  let ?u = "dropWhile is_space s"
  have eq: "strip s = take (length ?u - length (takeWhile is_space (rev ?u))) ?u"
    unfolding strip_def by (rule rev_dropWhile_rev)
  show ?thesis
  proof (cases "strip s")
    case Nil then show ?thesis by simp
  next
    case (Cons a as)
    then have "?u \<noteq> []" using eq by (metis list.distinct(1) take_Nil)
    then have "\<not> is_space (hd ?u)" by (metis hd_dropWhile)
    moreover have "hd (strip s) = hd ?u" using eq Cons by (metis hd_take list.distinct(1) take_eq_Nil gr0I)
    ultimately have "\<not> is_space a" using Cons by simp
    then show ?thesis using Cons by simp
  qed
qed

lemma strip_strip: "strip (strip s) = strip s"
proof -
  have "dropWhile is_space (rev (strip s)) = rev (strip s)"
    unfolding strip_def by simp
  then show ?thesis
    using dropWhile_strip[of s] by (simp add: strip_def)
qed

lemma length_strip: "length (strip s) \<le> length s"
  unfolding strip_def
  by (metis length_rev length_dropWhile_le le_trans)

lemma set_strip: "set (strip s) \<subseteq> set s"
  unfolding strip_def
  by (metis set_rev set_dropWhileD subsetI)

lemma replace_absent: "old \<noteq> [] \<Longrightarrow> \<not> sublist old s \<Longrightarrow> replace s old new = s"
proof (induction s old new rule: replace.induct)
  case (1 old new)
  then show ?case by simp
next
  case (2 c cs old new)
  have "\<not> prefix old (c # cs)" using 2(5) by (meson prefix_imp_sublist)
  moreover have "\<not> sublist old cs" using 2(5) by (meson sublist_Cons_right)
  ultimately show ?case using 2 by simp
qed

lemma length_replace_le:
  "old \<noteq> [] \<Longrightarrow> length new \<le> length old \<Longrightarrow> length (replace s old new) \<le> length s"
proof (induction s old new rule: replace.induct)
  case (1 old new)
  then show ?case by simp
next
  case (2 c cs old new)
  show ?case
  proof (cases "prefix old (c # cs)")
    case True
    then have "length old \<le> length (c # cs)" by (rule prefix_length_le)
    moreover have "length (replace (drop (length old) (c # cs)) old new) \<le> length (drop (length old) (c # cs))"
      using 2 True by simp
    ultimately show ?thesis using 2(4,5) True by simp
  next
    case False
    then show ?thesis using 2 by simp
  qed
qed

lemma length_replace_less:
  "old \<noteq> [] \<Longrightarrow> length new < length old \<Longrightarrow> sublist old s \<Longrightarrow> length (replace s old new) < length s"
proof (induction s old new rule: replace.induct)
  case (1 old new)
  then show ?case by simp
next
  case (2 c cs old new)
  show ?case
  proof (cases "prefix old (c # cs)")
    case True
    then have "length old \<le> length (c # cs)" by (rule prefix_length_le)
    moreover have "length (replace (drop (length old) (c # cs)) old new) \<le> length (drop (length old) (c # cs))"
      using 2(4,5) by (intro length_replace_le) auto
    ultimately show ?thesis using 2(4,5) True by simp
  next
    case False
    then have "sublist old cs" using 2(6) by (simp add: sublist_Cons_right)
    then show ?thesis using 2 False by simp
  qed
qed

lemma set_replace: "set (replace s old new) \<subseteq> set s \<union> set new"
proof (induction s old new rule: replace.induct)
  case (1 old new)
  then show ?case by auto
next
  case (2 c cs old new)
  have "set (drop (length old) (c # cs)) \<subseteq> set (c # cs)" by (rule set_drop_subset)
  then show ?case using 2 by (auto simp del: drop_Suc_Cons)
qed


lemma is_space_blank: "is_space (CHR '' '')"
  by (simp add: is_space_def)

lemma single_spaced_Cons: "\<not> is_space c \<Longrightarrow> single_spaced (c # r) = single_spaced r"
  by (cases r) auto

lemma single_spaced_sub_whitespace: "single_spaced (sub_whitespace s)"
proof (induction s rule: sub_whitespace.induct)
  case 1
  then show ?case by simp
next
  case (2 c cs)
  show ?case
  proof (cases "is_space c")
    case True
    let ?r = "dropWhile is_space cs"
    show ?thesis
    proof (cases ?r)
      case Nil
      have "sub_whitespace (c # cs) = [CHR '' '']" using True by (simp only: sub_whitespace.simps Nil if_True)
      then show ?thesis by (simp add: is_space_blank)
    next
      case (Cons d ds)
      then have "\<not> is_space d" by (metis hd_dropWhile list.distinct(1) list.sel(1))
      then show ?thesis using True Cons 2(1) by simp
    qed
  next
    case False
    then show ?thesis using 2(2) by (simp add: single_spaced_Cons)
  qed
qed

lemma sub_whitespace_fixed: "single_spaced s \<Longrightarrow> sub_whitespace s = s"
  by (induction s rule: single_spaced.induct) (auto split: if_splits)

lemma single_spaced_tl: "single_spaced (c # cs) \<Longrightarrow> single_spaced cs"
  by (cases cs) auto

lemma single_spaced_drop: "single_spaced s \<Longrightarrow> single_spaced (drop n s)"
proof (induction n arbitrary: s)
  case 0
  then show ?case by simp
next
  case (Suc n)
  then show ?case by (cases s) (auto dest: single_spaced_tl)
qed

lemma single_spaced_take: "single_spaced s \<Longrightarrow> single_spaced (take n s)"
proof (induction s arbitrary: n rule: single_spaced.induct)
  case 1
  then show ?case by simp
next
  case (2 c)
  then show ?case by (cases n) auto
next
  case (3 c d cs)
  show ?case
  proof (cases n)
    case 0
    then show ?thesis by simp
  next
    case (Suc m)
    have "single_spaced (take m (d # cs))" using 3 by simp
    then show ?thesis using 3(2) Suc by (cases m) (auto split: if_splits)
  qed
qed

lemma single_spaced_strip: "single_spaced s \<Longrightarrow> single_spaced (strip s)"
  unfolding strip_def rev_dropWhile_rev
  by (simp add: dropWhile_eq_drop single_spaced_drop single_spaced_take)

lemma length_sub_whitespace: "length (sub_whitespace s) \<le> length s"
proof (induction s rule: sub_whitespace.induct)
  case 1
  then show ?case by simp
next
  case (2 c cs)
  have "length (dropWhile is_space cs) \<le> length cs" by (rule length_dropWhile_le)
  then show ?case using 2 by auto
qed

lemma set_sub_whitespace: "set (sub_whitespace s) \<subseteq> insert (CHR '' '') (set s)"
proof (induction s rule: sub_whitespace.induct)
  case 1
  then show ?case by simp
next
  case (2 c cs)
  have "set (dropWhile is_space cs) \<subseteq> set cs" by (meson set_dropWhileD subsetI)
  then show ?case using 2 by auto
qed



lemma not_upper_lower_char: "\<not> is_upper (lower_char c)"
proof (cases "is_upper c")
  case True
  then have "(of_char (char_of ((of_char c :: nat) + 32)) :: nat) = of_char c + 32"
    by (simp add: is_upper_def)
  then show ?thesis using True by (simp add: lower_char_def is_upper_def Let_def)
next
  case False
  then show ?thesis by (simp add: lower_char_def is_upper_def Let_def)
qed

lemma lower_fixed: "\<forall>c\<in>set s. \<not> is_upper c \<Longrightarrow> lower s = s"
  by (induction s) (auto simp: lower_def lower_char_def is_upper_def Let_def)

lemma apply_replacements_Cons:
  "apply_replacements ((old, new) # rs) s = apply_replacements rs (replace s old new)"
  by (simp add: apply_replacements_def)

lemma apply_replacements_absent:
  "\<forall>(old, new)\<in>set rs. old \<noteq> [] \<and> \<not> sublist old s \<Longrightarrow> apply_replacements rs s = s"
proof (induction rs)
  case Nil
  then show ?case by (simp add: apply_replacements_def)
next
  case (Cons r rs)
  obtain old new where r: "r = (old, new)" by (cases r)
  have "replace s old new = s" using Cons.prems r by (simp add: replace_absent)
  then show ?case using Cons r by (simp add: apply_replacements_Cons)
qed

lemma length_apply_replacements_le:
  "\<forall>(old, new)\<in>set rs. old \<noteq> [] \<and> length new < length old \<Longrightarrow>
   length (apply_replacements rs s) \<le> length s"
proof (induction rs arbitrary: s)
  case Nil
  then show ?case by (simp add: apply_replacements_def)
next
  case (Cons r rs)
  obtain old new where r: "r = (old, new)" by (cases r)
  have "length (replace s old new) \<le> length s"
    using Cons.prems r by (simp add: length_replace_le)
  moreover have "length (apply_replacements rs (replace s old new)) \<le> length (replace s old new)"
    using Cons by simp
  ultimately show ?case using r by (simp add: apply_replacements_Cons)
qed

lemma length_apply_replacements_less:
  "\<forall>(old, new)\<in>set rs. old \<noteq> [] \<and> length new < length old \<Longrightarrow>
   \<exists>(old, new)\<in>set rs. sublist old s \<Longrightarrow>
   length (apply_replacements rs s) < length s"
proof (induction rs arbitrary: s)
  case Nil
  then show ?case by simp
next
  case (Cons r rs)
  obtain old new where r: "r = (old, new)" by (cases r)
  have ok: "old \<noteq> []" "length new < length old" using Cons.prems(1) r by auto
  have rest: "\<forall>(old, new)\<in>set rs. old \<noteq> [] \<and> length new < length old"
    using Cons.prems(1) by simp
  show ?case
  proof (cases "sublist old s")
    case True
    then have "length (replace s old new) < length s" using ok by (simp add: length_replace_less)
    moreover have "length (apply_replacements rs (replace s old new)) \<le> length (replace s old new)"
      using rest by (rule length_apply_replacements_le)
    ultimately show ?thesis using r by (simp add: apply_replacements_Cons)
  next
    case False
    then have same: "replace s old new = s" using ok by (simp add: replace_absent)
    have "\<exists>(old, new)\<in>set rs. sublist old s" using Cons.prems(2) False r by auto
    then have "length (apply_replacements rs s) < length s" using Cons.IH rest by simp
    then show ?thesis using r same by (simp add: apply_replacements_Cons)
  qed
qed

lemma set_apply_replacements:
  "set (apply_replacements rs s) \<subseteq> set s \<union> (\<Union>(old, new)\<in>set rs. set new)"
proof (induction rs arbitrary: s)
  case Nil
  then show ?case by (simp add: apply_replacements_def)
next
  case (Cons r rs)
  obtain old new where r: "r = (old, new)" by (cases r)
  have "set (apply_replacements rs (replace s old new)) \<subseteq>
        set (replace s old new) \<union> (\<Union>(old, new)\<in>set rs. set new)"
    by (rule Cons.IH)
  moreover have "set (replace s old new) \<subseteq> set s \<union> set new" by (rule set_replace)
  ultimately show ?case using r by (auto simp: apply_replacements_Cons)
qed

lemma replacements_shorten: "\<forall>(old, new)\<in>set replacements. old \<noteq> [] \<and> length new < length old"
  by (simp add: replacements_def)

lemma replacements_lower: "\<forall>(old, new)\<in>set replacements. \<forall>c\<in>set new. \<not> is_upper c"
  by (simp add: replacements_def is_upper_def)

text \<open>What a normalized key looks like.\<close>

lemma normalized_shape:
  assumes "y = normalize_school_name (Some x)"
  shows "strip y = y" and "single_spaced y" and "\<forall>c\<in>set y. \<not> is_upper c"
    and "\<forall>c\<in>set y. is_word c \<or> is_space c"
proof -
  let ?z = "apply_replacements replacements (strip (lower x))"
  let ?w = "sub_whitespace (sub_punctuation ?z)"
  have y: "y = strip ?w" using assms by (simp add: normalize_school_name_def)
  show "strip y = y" using y by (simp add: strip_strip)
  show "single_spaced y" using y by (simp add: single_spaced_strip single_spaced_sub_whitespace)
  have sub: "set y \<subseteq> insert (CHR '' '') (set (sub_punctuation ?z))"
    using y set_strip[of ?w] set_sub_whitespace[of "sub_punctuation ?z"] by auto
  have "\<forall>c\<in>set (lower x). \<not> is_upper c" by (auto simp: lower_def not_upper_lower_char)
  then have "\<forall>c\<in>set (strip (lower x)). \<not> is_upper c" using set_strip[of "lower x"] by auto
  then have z: "\<forall>c\<in>set ?z. \<not> is_upper c"
    using set_apply_replacements[of replacements "strip (lower x)"] replacements_lower by fastforce
  have "\<not> is_upper (CHR '' '')" by (simp add: is_upper_def)
  then show "\<forall>c\<in>set y. \<not> is_upper c" using sub z by (auto simp: sub_punctuation_def)
  show "\<forall>c\<in>set y. is_word c \<or> is_space c"
    using sub is_space_blank by (auto simp: sub_punctuation_def)
qed

lemma normalize_fixed_iff:
  assumes "y = normalize_school_name (Some x)"
  shows "normalize_school_name (Some y) = y \<longleftrightarrow> (\<forall>(old, new)\<in>set replacements. \<not> sublist old y)"
proof
  assume free: "\<forall>(old, new)\<in>set replacements. \<not> sublist old y"
  note shape = normalized_shape[OF assms]
  have "strip (lower y) = y" using shape by (simp add: lower_fixed)
  moreover have "apply_replacements replacements y = y"
    using free replacements_shorten by (intro apply_replacements_absent) auto
  moreover have "sub_punctuation y = y" using shape(4) by (simp add: sub_punctuation_def)
  moreover have "sub_whitespace y = y" using shape(2) by (rule sub_whitespace_fixed)
  ultimately show "normalize_school_name (Some y) = y"
    using shape(1) by (simp add: normalize_school_name_def)
next
  assume fixed: "normalize_school_name (Some y) = y"
  show "\<forall>(old, new)\<in>set replacements. \<not> sublist old y"
  proof (rule ccontr)
    assume "\<not> (\<forall>(old, new)\<in>set replacements. \<not> sublist old y)"
    then have occ: "\<exists>(old, new)\<in>set replacements. sublist old y" by auto
    note shape = normalized_shape[OF assms]
    have start: "strip (lower y) = y" using shape by (simp add: lower_fixed)
    let ?z = "apply_replacements replacements y"
    have "length ?z < length y"
      using replacements_shorten occ by (rule length_apply_replacements_less)
    moreover have "length (sub_punctuation ?z) \<le> length ?z" by (simp add: sub_punctuation_def)
    moreover have "length (sub_whitespace (sub_punctuation ?z)) \<le> length (sub_punctuation ?z)"
      by (rule length_sub_whitespace)
    moreover have "length (strip (sub_whitespace (sub_punctuation ?z))) \<le> length (sub_whitespace (sub_punctuation ?z))"
      by (rule length_strip)
    ultimately have "length (normalize_school_name (Some y)) < length y"
      using start by (simp add: normalize_school_name_def)
    then show False using fixed by simp
  qed
qed


subsection \<open>The claims about the normalizer\<close>

text \<open>
  Claim C7. \<open>normalize_school_name\<close> returns the empty string for a missing value, and
  it maps "Washington Elementary School" to "washington es", "Lincoln Middle School" to
  "lincoln ms" and "Central High School" to "central hs".
\<close>

theorem normalize_school_name_vectors:
  "normalize_school_name None = '''' \<and>
   normalize_school_name (Some ''Washington Elementary School'') = ''washington es'' \<and>
   normalize_school_name (Some ''Lincoln Middle School'') = ''lincoln ms'' \<and>
   normalize_school_name (Some ''Central High School'') = ''central hs''"
  by code_simp

text \<open>
  Claim C1 says that \<open>normalize_school_name\<close> is idempotent on every string. It is not:
  the key of "Lee (High School)" is "lee high", in which the pattern " high" appears
  only after the parentheses are deleted, and the key of "lee high" is "lee hs".
\<close>

theorem normalize_school_name_not_idempotent:
  "normalize_school_name (Some ''Lee (High School)'') = ''lee high'' \<and>
   normalize_school_name (Some (normalize_school_name (Some ''Lee (High School)''))) = ''lee hs'' \<and>
   normalize_school_name (Some (normalize_school_name (Some ''Lee (High School)''))) \<noteq>
     normalize_school_name (Some ''Lee (High School)'')"
  by code_simp

text \<open>
  Claim C1, amended. \<open>normalize_school_name\<close> is a function of its argument alone, and
  for every ASCII string \<open>x\<close> normalizing the key of \<open>x\<close> again returns that key exactly
  when no pattern of \<open>replacements\<close> occurs in the key.
\<close>

theorem normalize_school_name_idempotent_iff:
  assumes "ascii x"
  shows "normalize_school_name (Some (normalize_school_name (Some x))) = normalize_school_name (Some x)
     \<longleftrightarrow> (\<forall>(old, new)\<in>set replacements. \<not> sublist old (normalize_school_name (Some x)))"
  by (rule normalize_fixed_iff) simp

text \<open>The amended claim at the first vector of the specification, whose key
  "washington es" contains no pattern.\<close>

theorem normalize_school_name_idempotent_witness:
  "ascii ''Washington Elementary School'' \<and>
   normalize_school_name (Some (normalize_school_name (Some ''Washington Elementary School''))) =
     normalize_school_name (Some ''Washington Elementary School'')"
proof -
  have a: "ascii ''Washington Elementary School''"
    by code_simp
  have free: "\<forall>(old, new)\<in>set replacements.
      \<not> sublist old (normalize_school_name (Some ''Washington Elementary School''))"
    by code_simp
  show ?thesis
    using a free normalize_school_name_idempotent_iff [OF a] by blast
qed

section \<open>Properties of the brace scanner\<close>

lemma slice_Suc:
  "start \<le> i \<Longrightarrow> i < length text \<Longrightarrow> slice text start (Suc i) = slice text start i @ [text ! i]"
  by (simp add: slice_def Suc_diff_le take_Suc_conv_app_nth)

lemma quote_state_Suc:
  "start \<le> i \<Longrightarrow> i < length text \<Longrightarrow>
   quote_state text start (Suc i) = quote_step (quote_state text start i) (text ! i)"
  by (simp add: quote_state_def slice_Suc)

lemma depth_Suc:
  "start \<le> i \<Longrightarrow> depth text start (Suc i) = depth text start i + brace_delta text start i"
  by (simp add: depth_def)


lemma scan_loop_end:
  "\<not> i < length text \<Longrightarrow>
   scan_loop loads text start i brace_count in_str escape = Inl (ValueError ''No valid JSON found.'')"
  by (subst scan_loop.simps) simp

lemma scan_loop_step:
  assumes "start \<le> i" and "i < length text"
    and "quote_state text start i = (in_str, escape)"
    and "depth text start i = brace_count"
  shows "scan_loop loads text start i brace_count in_str escape =
     (if closes text start i then finish loads text start i
      else scan_loop loads text start (Suc i) (depth text start (Suc i))
             (fst (quote_state text start (Suc i))) (snd (quote_state text start (Suc i))))"
proof -
  have q: "quote_state text start (Suc i) = quote_step (in_str, escape) (text ! i)"
    using assms by (simp add: quote_state_Suc)
  have d: "depth text start (Suc i) = brace_count + brace_delta text start i"
    using assms by (simp add: depth_Suc)
  have ins: "inside_literal text start i = in_str"
    using assms by (simp add: inside_literal_def)
  show ?thesis
    apply (subst scan_loop.simps)
    using assms(2) q d ins
    by (auto simp: closes_def brace_delta_def)
qed

lemma scan_loop_find:
  assumes "start \<le> i"
    and "quote_state text start i = (in_str, escape)"
    and "depth text start i = brace_count"
  shows "scan_loop loads text start i brace_count in_str escape =
     (case find (closes text start) [i..<length text] of
        None \<Rightarrow> Inl (ValueError ''No valid JSON found.'')
      | Some k \<Rightarrow> finish loads text start k)"
  using assms
proof (induction "length text - i" arbitrary: i brace_count in_str escape)
  case 0
  then have "\<not> i < length text" by simp
  then show ?case by (simp add: scan_loop_end)
next
  case (Suc n)
  then have lt: "i < length text" by simp
  have upt: "[i..<length text] = i # [Suc i..<length text]" using lt by (simp add: upt_conv_Cons)
  have step: "scan_loop loads text start i brace_count in_str escape =
     (if closes text start i then finish loads text start i
      else scan_loop loads text start (Suc i) (depth text start (Suc i))
             (fst (quote_state text start (Suc i))) (snd (quote_state text start (Suc i))))"
    using Suc.prems lt by (intro scan_loop_step) auto
  have rest: "scan_loop loads text start (Suc i) (depth text start (Suc i))
             (fst (quote_state text start (Suc i))) (snd (quote_state text start (Suc i))) =
     (case find (closes text start) [Suc i..<length text] of
        None \<Rightarrow> Inl (ValueError ''No valid JSON found.'')
      | Some k \<Rightarrow> finish loads text start k)"
    using Suc.hyps(2) Suc.prems(1) by (intro Suc.hyps(1)) auto
  show ?case unfolding step rest upt by simp
qed

lemma quote_state_start: "quote_state text start start = (False, False)"
  by (simp add: quote_state_def slice_def)

lemma depth_start: "depth text start start = 0"
  by (simp add: depth_def)

lemma extract_json_dict_find:
  "extract_json_dict loads text =
     (case find_char (CHR ''{'') text of
        None \<Rightarrow> Inl (ValueError ''No opening brace found.'')
      | Some start \<Rightarrow>
          (case closing_index text start of
             None \<Rightarrow> Inl (ValueError ''No valid JSON found.'')
           | Some k \<Rightarrow> finish loads text start k))"
  by (simp add: extract_json_dict_def closing_index_def scan_loop_find quote_state_start depth_start
      split: option.split)

lemma closing_index_Some:
  "closing_index text start = Some k \<longleftrightarrow>
     start \<le> k \<and> closes text start k \<and> (\<forall>j. start \<le> j \<and> j < k \<longrightarrow> \<not> closes text start j)"
proof
  assume "closing_index text start = Some k"
  then obtain n where n: "n < length [start..<length text]" "closes text start ([start..<length text] ! n)"
    "k = [start..<length text] ! n" "\<forall>j<n. \<not> closes text start ([start..<length text] ! j)"
    unfolding closing_index_def find_Some_iff by blast
  have k: "k = start + n" using n(1,3) by simp
  have "\<not> closes text start j" if "start \<le> j" "j < k" for j
  proof -
    have "j - start < n" using that k by simp
    then have "\<not> closes text start ([start..<length text] ! (j - start))" using n(4) by blast
    moreover have "[start..<length text] ! (j - start) = j" using that k n(1) by simp
    ultimately show ?thesis by simp
  qed
  then show "start \<le> k \<and> closes text start k \<and> (\<forall>j. start \<le> j \<and> j < k \<longrightarrow> \<not> closes text start j)"
    using n k by auto
next
  assume a: "start \<le> k \<and> closes text start k \<and> (\<forall>j. start \<le> j \<and> j < k \<longrightarrow> \<not> closes text start j)"
  then have sk: "start \<le> k" and ck: "closes text start k"
    and first: "\<And>j. start \<le> j \<Longrightarrow> j < k \<Longrightarrow> \<not> closes text start j" by auto
  have lt: "k < length text" using ck by (simp add: closes_def)
  have 1: "k - start < length [start..<length text]" using sk lt by simp
  have 2: "[start..<length text] ! (k - start) = k" using sk lt by simp
  have 3: "\<forall>j<k - start. \<not> closes text start ([start..<length text] ! j)"
    using sk lt first by simp
  show "closing_index text start = Some k"
    unfolding closing_index_def find_Some_iff using 1 2 3 ck by metis
qed

lemma closing_index_None:
  "closing_index text start = None \<longleftrightarrow> (\<forall>j. start \<le> j \<longrightarrow> \<not> closes text start j)"
  by (auto simp: closing_index_def find_None_iff closes_def)

lemma find_char_Some:
  "find_char c text = Some start \<longleftrightarrow>
     start < length text \<and> text ! start = c \<and> (\<forall>j<start. text ! j \<noteq> c)"
proof
  let ?tw = "takeWhile (\<lambda>d. d \<noteq> c) text"
  assume "find_char c text = Some start"
  then have c: "c \<in> set text" and s: "start = length ?tw"
    by (auto simp: find_char_def split: if_splits)
  have "?tw \<noteq> text" using c by (simp add: takeWhile_eq_all_conv)
  then have "length ?tw \<noteq> length text"
    by (metis append_eq_conv_conj takeWhile_dropWhile_id take_all order_refl)
  then have lt: "start < length text" using s length_takeWhile_le[of "\<lambda>d. d \<noteq> c" "text"] by simp
  have at: "text ! start = c" using lt s nth_length_takeWhile[of "\<lambda>d. d \<noteq> c" "text"] by simp
  have "text ! j \<noteq> c" if "j < start" for j
  proof -
    have "?tw ! j = text ! j" using that s by (simp add: takeWhile_nth)
    moreover have "?tw ! j \<in> set ?tw" using that s by simp
    ultimately show ?thesis using set_takeWhileD by metis
  qed
  then show "start < length text \<and> text ! start = c \<and> (\<forall>j<start. text ! j \<noteq> c)"
    using lt at by blast
next
  let ?tw = "takeWhile (\<lambda>d. d \<noteq> c) text"
  assume a: "start < length text \<and> text ! start = c \<and> (\<forall>j<start. text ! j \<noteq> c)"
  then have c: "c \<in> set text" by (metis nth_mem)
  have le: "start \<le> length ?tw" using a by (intro length_takeWhile_less_P_nth) auto
  have "\<not> start < length ?tw"
  proof
    assume lt: "start < length ?tw"
    then have "?tw ! start = text ! start" by (simp add: takeWhile_nth)
    moreover have "?tw ! start \<in> set ?tw" using lt by simp
    ultimately have "text ! start \<noteq> c" using set_takeWhileD by metis
    then show False using a by simp
  qed
  then have "length ?tw = start" using le by simp
  then show "find_char c text = Some start" using c by (simp add: find_char_def)
qed

lemma find_char_None: "find_char c text = None \<longleftrightarrow> c \<notin> set text"
  by (simp add: find_char_def)

lemma find_char_first_brace: "find_char (CHR ''{'') text = Some start \<longleftrightarrow> first_brace text start"
proof -
  have "(\<forall>j<start. text ! j \<noteq> CHR ''{'') \<longleftrightarrow> CHR ''{'' \<notin> set (take start text)"
    if "start < length text"
    using that by (auto simp: in_set_conv_nth)
  then show ?thesis unfolding find_char_Some first_brace_def by blast
qed

lemma closing_index_first_closing:
  "closing_index text start = Some k \<longleftrightarrow> first_closing text start k"
  unfolding closing_index_Some first_closing_def by (auto simp: list_all_iff)

lemma first_brace_unique: "first_brace text start \<Longrightarrow> first_brace text start' \<Longrightarrow> start = start'"
  by (metis find_char_first_brace option.inject)

lemma first_closing_unique:
  "first_closing text start k \<Longrightarrow> first_closing text start k' \<Longrightarrow> k = k'"
  by (metis closing_index_first_closing option.inject)

lemma extract_no_brace:
  "extract_json_dict loads text = Inl (ValueError ''No opening brace found.'') \<longleftrightarrow>
     CHR ''{'' \<notin> set text"
proof (cases "find_char (CHR ''{'') text")
  case None
  then show ?thesis by (simp add: extract_json_dict_find find_char_def split: if_splits)
next
  case (Some start)
  then have "CHR ''{'' \<in> set text" by (simp add: find_char_def split: if_splits)
  moreover have "extract_json_dict loads text \<noteq> Inl (ValueError ''No opening brace found.'')"
    using Some by (simp add: extract_json_dict_find finish_def split: option.split)
  ultimately show ?thesis by simp
qed

lemma extract_unclosed:
  "extract_json_dict loads text = Inl (ValueError ''No valid JSON found.'') \<longleftrightarrow>
     (\<exists>start. first_brace text start \<and> (\<forall>k. \<not> first_closing text start k))"
proof (cases "find_char (CHR ''{'') text")
  case None
  then have "\<forall>start. \<not> first_brace text start" by (simp add: find_char_first_brace[symmetric])
  moreover have "extract_json_dict loads text \<noteq> Inl (ValueError ''No valid JSON found.'')"
    using None by (simp add: extract_json_dict_find)
  ultimately show ?thesis by simp
next
  case (Some start)
  then have fb: "first_brace text start" by (simp add: find_char_first_brace)
  show ?thesis
  proof (cases "closing_index text start")
    case None
    then have "\<forall>k. \<not> first_closing text start k"
      by (simp add: closing_index_first_closing[symmetric])
    moreover have "extract_json_dict loads text = Inl (ValueError ''No valid JSON found.'')"
      using Some None by (simp add: extract_json_dict_find)
    ultimately show ?thesis using fb by blast
  next
    case k: (Some k)
    then have fc: "first_closing text start k" by (simp add: closing_index_first_closing)
    have "extract_json_dict loads text \<noteq> Inl (ValueError ''No valid JSON found.'')"
      using Some k by (simp add: extract_json_dict_find finish_def split: option.split)
    moreover have "\<not> (\<exists>start. first_brace text start \<and> (\<forall>k. \<not> first_closing text start k))"
      using fb fc first_brace_unique by blast
    ultimately show ?thesis by simp
  qed
qed

lemma extract_closed:
  "extract_json_dict loads text = r \<and> r \<noteq> Inl (ValueError ''No opening brace found.'') \<and>
     r \<noteq> Inl (ValueError ''No valid JSON found.'') \<longleftrightarrow>
     (\<exists>start k. first_brace text start \<and> first_closing text start k \<and> r = finish loads text start k)"
proof (cases "find_char (CHR ''{'') text")
  case None
  then have "\<forall>start. \<not> first_brace text start" by (simp add: find_char_first_brace[symmetric])
  moreover have "extract_json_dict loads text = Inl (ValueError ''No opening brace found.'')"
    using None by (simp add: extract_json_dict_find)
  ultimately show ?thesis by auto
next
  case (Some start)
  then have fb: "first_brace text start" by (simp add: find_char_first_brace)
  show ?thesis
  proof (cases "closing_index text start")
    case None
    then have "\<forall>k. \<not> first_closing text start k"
      by (simp add: closing_index_first_closing[symmetric])
    then have "\<not> (\<exists>start k. first_brace text start \<and> first_closing text start k \<and>
        r = finish loads text start k)"
      using fb first_brace_unique by blast
    moreover have "extract_json_dict loads text = Inl (ValueError ''No valid JSON found.'')"
      using Some None by (simp add: extract_json_dict_find)
    ultimately show ?thesis by auto
  next
    case k: (Some k)
    then have fc: "first_closing text start k" by (simp add: closing_index_first_closing)
    have e: "extract_json_dict loads text = finish loads text start k"
      using Some k by (simp add: extract_json_dict_find)
    have f: "finish loads text start k \<noteq> Inl (ValueError ''No opening brace found.'')"
      "finish loads text start k \<noteq> Inl (ValueError ''No valid JSON found.'')"
      by (simp_all add: finish_def split: option.split)
    have "(\<exists>start k. first_brace text start \<and> first_closing text start k \<and>
        r = finish loads text start k) \<longleftrightarrow> r = finish loads text start k"
      using fb fc first_brace_unique first_closing_unique by blast
    then show ?thesis using e f by auto
  qed
qed


lemma finish_Inr:
  "finish loads text start k = Inr s \<longleftrightarrow> s = slice text start (k + 1) \<and> loads s \<noteq> None"
  by (auto simp: finish_def split: option.splits)

lemma finish_Inl:
  "finish loads text start k = Inl e \<longleftrightarrow> e = JSONDecodeError \<and> loads (slice text start (k + 1)) = None"
  by (auto simp: finish_def split: option.splits)

lemma extract_Inr:
  "extract_json_dict loads text = Inr s \<longleftrightarrow>
     (\<exists>start k. first_brace text start \<and> first_closing text start k \<and>
        s = slice text start (k + 1) \<and> loads s \<noteq> None)"
proof -
  have "extract_json_dict loads text = Inr s \<longleftrightarrow>
      (\<exists>start k. first_brace text start \<and> first_closing text start k \<and>
         Inr s = finish loads text start k)"
    using extract_closed[of loads "text" "Inr s"] by simp
  also have "\<dots> \<longleftrightarrow> (\<exists>start k. first_brace text start \<and> first_closing text start k \<and>
        s = slice text start (k + 1) \<and> loads s \<noteq> None)"
    using finish_Inr[of loads "text"] by metis
  finally show ?thesis .
qed

lemma extract_decode_error:
  "extract_json_dict loads text = Inl JSONDecodeError \<longleftrightarrow>
     (\<exists>start k. first_brace text start \<and> first_closing text start k \<and>
        loads (slice text start (k + 1)) = None)"
proof -
  have "extract_json_dict loads text = Inl JSONDecodeError \<longleftrightarrow>
      (\<exists>start k. first_brace text start \<and> first_closing text start k \<and>
         Inl JSONDecodeError = finish loads text start k)"
    using extract_closed[of loads "text" "Inl JSONDecodeError"] by simp
  also have "\<dots> \<longleftrightarrow> (\<exists>start k. first_brace text start \<and> first_closing text start k \<and>
        loads (slice text start (k + 1)) = None)"
    using finish_Inl[of loads "text"] by metis
  finally show ?thesis .
qed

lemma extract_errors:
  assumes "extract_json_dict loads text = Inl e"
  shows "e = ValueError ''No opening brace found.'' \<or> e = ValueError ''No valid JSON found.'' \<or>
      e = JSONDecodeError"
proof (rule ccontr)
  assume n: "\<not> ?thesis"
  then have "extract_json_dict loads text = Inl e \<and> Inl e \<noteq> Inl (ValueError ''No opening brace found.'') \<and>
     Inl e \<noteq> Inl (ValueError ''No valid JSON found.'')"
    using assms by simp
  then have "\<exists>start k. first_brace text start \<and> first_closing text start k \<and>
      Inl e = finish loads text start k"
    by (rule extract_closed[THEN iffD1])
  then obtain start k where "Inl e = finish loads text start k"
    by blast
  then have "e = JSONDecodeError" using finish_Inl[of loads "text" start k e] by simp
  then show False using n by simp
qed

lemma extract_raises_iff:
  "(\<exists>e. extract_json_dict loads text = Inl e) \<longleftrightarrow>
     \<not> (\<exists>start k. first_brace text start \<and> first_closing text start k \<and>
          loads (slice text start (k + 1)) \<noteq> None)"
proof -
  have "(\<exists>e. extract_json_dict loads text = Inl e) \<longleftrightarrow> \<not> (\<exists>s. extract_json_dict loads text = Inr s)"
    by (cases "extract_json_dict loads text") auto
  also have "\<dots> \<longleftrightarrow> \<not> (\<exists>start k. first_brace text start \<and> first_closing text start k \<and>
          loads (slice text start (k + 1)) \<noteq> None)"
    unfolding extract_Inr by blast
  finally show ?thesis .
qed

lemma extract_begins:
  assumes "extract_json_dict loads text = Inr s"
  shows "\<exists>start. first_brace text start \<and> s \<noteq> [] \<and> prefix s (drop start text)"
proof -
  obtain start k where fb: "first_brace text start" and fc: "first_closing text start k"
    and s: "s = slice text start (k + 1)"
    using assms unfolding extract_Inr by blast
  have "start \<le> k" "k < length text" using fc by (auto simp: first_closing_def closes_def)
  then have "s \<noteq> []" using s by (simp add: slice_def)
  moreover have "prefix s (drop start text)" using s by (simp add: slice_def take_is_prefix)
  ultimately show ?thesis using fb by blast
qed

lemmas scan_example = extract_json_dict_find find_char_def closing_index_def closes_def
        inside_literal_def quote_state_def depth_def brace_delta_def slice_def finish_def



subsection \<open>The claims about the scanner\<close>

text \<open>
  Claim C4. \<open>extract_json_dict\<close> returns a string \<open>s\<close> exactly when the text has a first
  opening brace at some index \<open>start\<close>, the brace depth, counted from there over the
  braces outside double-quoted string literals, first returns to zero at a closing brace
  at some index \<open>k\<close>, \<open>s\<close> is the substring from \<open>start\<close> to \<open>k\<close> inclusive, and
  \<open>json.loads\<close> accepts \<open>s\<close>. For a text with a balanced object inside prose and a
  closing brace inside a quoted string value, the scan ends at the outer closing brace:
  the object is returned if \<open>json.loads\<close> accepts it, and nothing shorter.
\<close>

theorem extract_json_dict_returns:
  \<open>(extract_json_dict loads text = Inr s \<longleftrightarrow>
      (\<exists>start k. first_brace text start \<and> first_closing text start k \<and>
         s = slice text start (k + 1) \<and> loads s \<noteq> None)) \<and>
    extract_json_dict loads ''The mapping is {"a": "b}c"} as asked.'' =
      (case loads ''{"a": "b}c"}'' of
         None \<Rightarrow> Inl JSONDecodeError
       | Some d \<Rightarrow> Inr ''{"a": "b}c"}'')\<close>
proof
  show \<open>extract_json_dict loads text = Inr s \<longleftrightarrow>
      (\<exists>start k. first_brace text start \<and> first_closing text start k \<and>
         s = slice text start (k + 1) \<and> loads s \<noteq> None)\<close>
    by (rule extract_Inr)
  show \<open>extract_json_dict loads ''The mapping is {"a": "b}c"} as asked.'' =
      (case loads ''{"a": "b}c"}'' of
         None \<Rightarrow> Inl JSONDecodeError
       | Some d \<Rightarrow> Inr ''{"a": "b}c"}'')\<close>
    by (simp add: scan_example split: option.split)
qed

text \<open>The claim on a reply that wraps an object in prose, with \<open>json.loads\<close> as it is on
  that object: the first brace is at index 3, the closing brace inside the string value at
  index 10 is skipped, and the scan ends at index 12.\<close>

theorem extract_json_dict_returns_witness:
  \<open>first_brace ''ok {"a": "}"} bye'' 3 \<and> first_closing ''ok {"a": "}"} bye'' 3 12 \<and>
   example_loads ''{"a": "}"}'' \<noteq> None \<and>
   extract_json_dict example_loads ''ok {"a": "}"} bye'' = Inr ''{"a": "}"}''\<close>
proof -
  have f1: \<open>first_brace ''ok {"a": "}"} bye'' 3\<close>
    by code_simp
  have f2: \<open>first_closing ''ok {"a": "}"} bye'' 3 12\<close>
    by code_simp
  have f3: \<open>''{"a": "}"}'' = slice ''ok {"a": "}"} bye'' 3 (12 + 1)\<close>
    by code_simp
  have f4: \<open>example_loads ''{"a": "}"}'' \<noteq> None\<close>
    by code_simp
  have \<open>\<exists>start k. first_brace ''ok {"a": "}"} bye'' start \<and>
      first_closing ''ok {"a": "}"} bye'' start k \<and>
      ''{"a": "}"}'' = slice ''ok {"a": "}"} bye'' start (k + 1) \<and>
      example_loads ''{"a": "}"}'' \<noteq> None\<close>
    using f1 f2 f3 f4 by (intro exI conjI)
  then have e: \<open>extract_json_dict example_loads ''ok {"a": "}"} bye'' = Inr ''{"a": "}"}''\<close>
    by (rule extract_json_dict_returns [THEN conjunct1, THEN iffD2])
  show ?thesis by (intro conjI f1 f2 f4 e)
qed

text \<open>
  Claim C10. \<open>extract_json_dict\<close> raises exactly when the extraction fails: the
  \<open>ValueError\<close> "No opening brace found." exactly when the text has no opening brace; the
  \<open>ValueError\<close> "No valid JSON found." exactly when the depth counted from the first
  opening brace never returns to zero; the error of \<open>json.loads\<close> exactly when the first
  balanced substring is rejected by \<open>json.loads\<close>; and no other exception. A returned
  string begins at the first opening brace of the text. A balanced object that begins at
  a later brace is not considered: where the first balanced substring is not the reply's
  object, the result depends on that substring alone, and where the first brace is never
  closed, the call raises although a balanced object follows.
\<close>

theorem extract_json_dict_raises:
  \<open>(extract_json_dict loads text = Inl (ValueError ''No opening brace found.'') \<longleftrightarrow>
      CHR ''{'' \<notin> set text) \<and>
    (extract_json_dict loads text = Inl (ValueError ''No valid JSON found.'') \<longleftrightarrow>
      (\<exists>start. first_brace text start \<and> (\<forall>k. \<not> first_closing text start k))) \<and>
    (extract_json_dict loads text = Inl JSONDecodeError \<longleftrightarrow>
      (\<exists>start k. first_brace text start \<and> first_closing text start k \<and>
         loads (slice text start (k + 1)) = None)) \<and>
    (extract_json_dict loads text = Inl e \<longrightarrow>
      e = ValueError ''No opening brace found.'' \<or> e = ValueError ''No valid JSON found.'' \<or>
      e = JSONDecodeError) \<and>
    ((\<exists>e. extract_json_dict loads text = Inl e) \<longleftrightarrow>
      \<not> (\<exists>start k. first_brace text start \<and> first_closing text start k \<and>
           loads (slice text start (k + 1)) \<noteq> None)) \<and>
    (extract_json_dict loads text = Inr s \<longrightarrow>
      (\<exists>start. first_brace text start \<and> s \<noteq> [] \<and> prefix s (drop start text))) \<and>
    extract_json_dict loads ''Sorry {not json} but {"a": "b"}'' =
      (case loads ''{not json}'' of None \<Rightarrow> Inl JSONDecodeError | Some d \<Rightarrow> Inr ''{not json}'') \<and>
    extract_json_dict loads ''{ {"a": "b"}'' = Inl (ValueError ''No valid JSON found.'')\<close>
proof (intro conjI)
  show \<open>extract_json_dict loads text = Inl (ValueError ''No opening brace found.'') \<longleftrightarrow>
      CHR ''{'' \<notin> set text\<close>
    by (rule extract_no_brace)
  show \<open>extract_json_dict loads text = Inl (ValueError ''No valid JSON found.'') \<longleftrightarrow>
      (\<exists>start. first_brace text start \<and> (\<forall>k. \<not> first_closing text start k))\<close>
    by (rule extract_unclosed)
  show \<open>extract_json_dict loads text = Inl JSONDecodeError \<longleftrightarrow>
      (\<exists>start k. first_brace text start \<and> first_closing text start k \<and>
         loads (slice text start (k + 1)) = None)\<close>
    by (rule extract_decode_error)
  show \<open>extract_json_dict loads text = Inl e \<longrightarrow>
      e = ValueError ''No opening brace found.'' \<or> e = ValueError ''No valid JSON found.'' \<or>
      e = JSONDecodeError\<close>
    by (rule impI) (rule extract_errors)
  show \<open>(\<exists>e. extract_json_dict loads text = Inl e) \<longleftrightarrow>
      \<not> (\<exists>start k. first_brace text start \<and> first_closing text start k \<and>
           loads (slice text start (k + 1)) \<noteq> None)\<close>
    by (rule extract_raises_iff)
  show \<open>extract_json_dict loads text = Inr s \<longrightarrow>
      (\<exists>start. first_brace text start \<and> s \<noteq> [] \<and> prefix s (drop start text))\<close>
    by (rule impI) (rule extract_begins)
  show \<open>extract_json_dict loads ''Sorry {not json} but {"a": "b"}'' =
      (case loads ''{not json}'' of None \<Rightarrow> Inl JSONDecodeError | Some d \<Rightarrow> Inr ''{not json}'')\<close>
    by (simp add: scan_example split: option.split)
  show \<open>extract_json_dict loads ''{ {"a": "b"}'' = Inl (ValueError ''No valid JSON found.'')\<close>
    by (simp add: scan_example split: option.split)
qed

text \<open>The claim on a text without a brace and on a text whose first balanced substring
  \<open>json.loads\<close> rejects.\<close>

theorem extract_json_dict_raises_witness:
  \<open>CHR ''{'' \<notin> set ''no object here'' \<and>
   extract_json_dict example_loads ''no object here'' = Inl (ValueError ''No opening brace found.'') \<and>
   first_brace ''Sorry {not json} but {"a": "}"}'' 6 \<and>
   first_closing ''Sorry {not json} but {"a": "}"}'' 6 15 \<and>
   example_loads (slice ''Sorry {not json} but {"a": "}"}'' 6 (15 + 1)) = None \<and>
   extract_json_dict example_loads ''Sorry {not json} but {"a": "}"}'' = Inl JSONDecodeError\<close>
proof -
  have a: \<open>CHR ''{'' \<notin> set ''no object here''\<close>
    by simp
  have b: \<open>first_brace ''Sorry {not json} but {"a": "}"}'' 6 \<and>
      first_closing ''Sorry {not json} but {"a": "}"}'' 6 15 \<and>
      example_loads (slice ''Sorry {not json} but {"a": "}"}'' 6 (15 + 1)) = None\<close>
    by code_simp
  have c: \<open>extract_json_dict example_loads ''no object here'' = Inl (ValueError ''No opening brace found.'')\<close>
    using a by (rule extract_json_dict_raises [THEN conjunct1, THEN iffD2])
  have \<open>\<exists>start k. first_brace ''Sorry {not json} but {"a": "}"}'' start \<and>
      first_closing ''Sorry {not json} but {"a": "}"}'' start k \<and>
      example_loads (slice ''Sorry {not json} but {"a": "}"}'' start (k + 1)) = None\<close>
    using b by (intro exI)
  then have d: \<open>extract_json_dict example_loads ''Sorry {not json} but {"a": "}"}'' = Inl JSONDecodeError\<close>
    by (rule extract_json_dict_raises [THEN conjunct2, THEN conjunct2, THEN conjunct1, THEN iffD2])
  show ?thesis using a b c d by blast
qed


section \<open>Properties of the fuzzy matcher\<close>

lemma best_match_loop_char:
  assumes "best_match_loop ratio t s xs (bm, bs) = (bm', bs')"
  shows "(bm' = bm \<and> bs' = bs \<and> (\<forall>x\<in>set xs. \<not> (ratio s x > bs \<and> ratio s x \<ge> t))) \<or>
         (\<exists>ys b zs. xs = ys @ b # zs \<and> bm' = Some b \<and> bs' = ratio s b \<and>
            ratio s b > bs \<and> ratio s b \<ge> t \<and>
            (\<forall>y\<in>set ys. ratio s y < ratio s b) \<and> (\<forall>z\<in>set zs. ratio s z \<le> ratio s b))"
  using assms
proof (induction xs arbitrary: bm bs)
  case Nil
  then show ?case by simp
next
  case (Cons x xs)
  show ?case
  proof (cases "ratio s x > bs \<and> ratio s x \<ge> t")
    case True
    then have rec: "best_match_loop ratio t s xs (Some x, ratio s x) = (bm', bs')"
      using Cons.prems by simp
    from Cons.IH[OF rec] show ?thesis
    proof
      assume a: "bm' = Some x \<and> bs' = ratio s x \<and>
          (\<forall>z\<in>set xs. \<not> (ratio s z > ratio s x \<and> ratio s z \<ge> t))"
      then have "\<forall>z\<in>set xs. ratio s z \<le> ratio s x" using True by force
      then have "x # xs = [] @ x # xs \<and> bm' = Some x \<and> bs' = ratio s x \<and>
            ratio s x > bs \<and> ratio s x \<ge> t \<and>
            (\<forall>y\<in>set []. ratio s y < ratio s x) \<and> (\<forall>z\<in>set xs. ratio s z \<le> ratio s x)"
        using a True by simp
      then show ?thesis by blast
    next
      assume "\<exists>ys b zs. xs = ys @ b # zs \<and> bm' = Some b \<and> bs' = ratio s b \<and>
            ratio s b > ratio s x \<and> ratio s b \<ge> t \<and>
            (\<forall>y\<in>set ys. ratio s y < ratio s b) \<and> (\<forall>z\<in>set zs. ratio s z \<le> ratio s b)"
      then obtain ys b zs where b: "xs = ys @ b # zs" "bm' = Some b" "bs' = ratio s b"
          "ratio s b > ratio s x" "ratio s b \<ge> t"
          "\<forall>y\<in>set ys. ratio s y < ratio s b" "\<forall>z\<in>set zs. ratio s z \<le> ratio s b"
        by blast
      have "x # xs = (x # ys) @ b # zs \<and> bm' = Some b \<and> bs' = ratio s b \<and>
            ratio s b > bs \<and> ratio s b \<ge> t \<and>
            (\<forall>y\<in>set (x # ys). ratio s y < ratio s b) \<and> (\<forall>z\<in>set zs. ratio s z \<le> ratio s b)"
        using b True by auto
      then show ?thesis by blast
    qed
  next
    case False
    then have rec: "best_match_loop ratio t s xs (bm, bs) = (bm', bs')"
      using Cons.prems by auto
    from Cons.IH[OF rec] show ?thesis
    proof
      assume "bm' = bm \<and> bs' = bs \<and> (\<forall>x\<in>set xs. \<not> (ratio s x > bs \<and> ratio s x \<ge> t))"
      then show ?thesis using False by auto
    next
      assume "\<exists>ys b zs. xs = ys @ b # zs \<and> bm' = Some b \<and> bs' = ratio s b \<and>
            ratio s b > bs \<and> ratio s b \<ge> t \<and>
            (\<forall>y\<in>set ys. ratio s y < ratio s b) \<and> (\<forall>z\<in>set zs. ratio s z \<le> ratio s b)"
      then obtain ys b zs where b: "xs = ys @ b # zs" "bm' = Some b" "bs' = ratio s b"
          "ratio s b > bs" "ratio s b \<ge> t"
          "\<forall>y\<in>set ys. ratio s y < ratio s b" "\<forall>z\<in>set zs. ratio s z \<le> ratio s b"
        by blast
      have "ratio s x < ratio s b" using False b(4,5) by auto
      then have "x # xs = (x # ys) @ b # zs \<and> bm' = Some b \<and> bs' = ratio s b \<and>
            ratio s b > bs \<and> ratio s b \<ge> t \<and>
            (\<forall>y\<in>set (x # ys). ratio s y < ratio s b) \<and> (\<forall>z\<in>set zs. ratio s z \<le> ratio s b)"
        using b by auto
      then show ?thesis by blast
    qed
  qed
qed

lemma first_best_iff:
  "first_best ratio s xs b \<longleftrightarrow>
     (\<exists>ys zs. xs = ys @ b # zs \<and> (\<forall>y\<in>set ys. ratio s y < ratio s b) \<and>
        (\<forall>z\<in>set zs. ratio s z \<le> ratio s b))"
proof
  assume "first_best ratio s xs b"
  then obtain i where i: "i < length xs" "xs ! i = b" "\<forall>c\<in>set xs. ratio s c \<le> ratio s b"
      "\<forall>c\<in>set (take i xs). ratio s c < ratio s b"
    by (auto simp: first_best_def list_ex_iff list_all_iff)
  have "xs = take i xs @ b # drop (Suc i) xs" using id_take_nth_drop[OF i(1)] i(2) by simp
  moreover have "\<forall>z\<in>set (drop (Suc i) xs). ratio s z \<le> ratio s b"
    using i(3) by (meson in_set_dropD)
  ultimately show "\<exists>ys zs. xs = ys @ b # zs \<and> (\<forall>y\<in>set ys. ratio s y < ratio s b) \<and>
        (\<forall>z\<in>set zs. ratio s z \<le> ratio s b)"
    using i(4) by blast
next
  assume "\<exists>ys zs. xs = ys @ b # zs \<and> (\<forall>y\<in>set ys. ratio s y < ratio s b) \<and>
        (\<forall>z\<in>set zs. ratio s z \<le> ratio s b)"
  then obtain ys zs where d: "xs = ys @ b # zs" "\<forall>y\<in>set ys. ratio s y < ratio s b"
      "\<forall>z\<in>set zs. ratio s z \<le> ratio s b"
    by blast
  have "length ys < length xs" "xs ! length ys = b" "take (length ys) xs = ys"
    using d(1) by auto
  moreover have "\<forall>c\<in>set xs. ratio s c \<le> ratio s b" using d by auto
  ultimately show "first_best ratio s xs b"
    unfolding first_best_def list_ex_iff list_all_iff using d(2) by auto
qed

lemma first_best_unique:
  assumes "first_best ratio s xs b" and "first_best ratio s xs b'"
  shows "b = b'"
proof -
  obtain i where i: "i < length xs" "xs ! i = b" "\<forall>c\<in>set xs. ratio s c \<le> ratio s b"
      "\<forall>c\<in>set (take i xs). ratio s c < ratio s b"
    using assms(1) by (auto simp: first_best_def list_ex_iff list_all_iff)
  obtain j where j: "j < length xs" "xs ! j = b'" "\<forall>c\<in>set xs. ratio s c \<le> ratio s b'"
      "\<forall>c\<in>set (take j xs). ratio s c < ratio s b'"
    using assms(2) by (auto simp: first_best_def list_ex_iff list_all_iff)
  have eq: "ratio s b = ratio s b'"
    using i(1,2,3) j(1,2,3) by (metis nth_mem order_antisym)
  have "\<not> i < j"
  proof
    assume "i < j"
    then have "b \<in> set (take j xs)" using i(1,2) j(1) by (auto simp: in_set_conv_nth)
    then show False using j(4) eq by auto
  qed
  moreover have "\<not> j < i"
  proof
    assume "j < i"
    then have "b' \<in> set (take i xs)" using j(1,2) i(1) by (auto simp: in_set_conv_nth)
    then show False using i(4) eq by auto
  qed
  ultimately show ?thesis using i(2) j(2) by (metis nat_neq_iff)
qed

lemma first_best_mem: "first_best ratio s xs b \<Longrightarrow> b \<in> set xs"
  by (auto simp: first_best_iff)

lemma first_best_greatest: "first_best ratio s xs b \<Longrightarrow> c \<in> set xs \<Longrightarrow> ratio s c \<le> ratio s b"
  by (auto simp: first_best_def list_ex_iff list_all_iff)

lemma first_best_exists:
  assumes "xs \<noteq> []"
  shows "\<exists>b. first_best ratio s xs b"
  using assms
proof (induction xs)
  case Nil
  then show ?case by simp
next
  case (Cons x xs)
  show ?case
  proof (cases "xs = []")
    case True
    have "x # xs = [] @ x # [] \<and> (\<forall>y\<in>set []. ratio s y < ratio s x) \<and>
        (\<forall>z\<in>set []. ratio s z \<le> ratio s x)"
      using True by simp
    then have "first_best ratio s (x # xs) x" unfolding first_best_iff by blast
    then show ?thesis ..
  next
    case False
    then obtain b where "first_best ratio s xs b" using Cons.IH by blast
    then obtain ys zs where d: "xs = ys @ b # zs" "\<forall>y\<in>set ys. ratio s y < ratio s b"
        "\<forall>z\<in>set zs. ratio s z \<le> ratio s b"
      unfolding first_best_iff by blast
    show ?thesis
    proof (cases "ratio s x < ratio s b")
      case True
      have "x # xs = (x # ys) @ b # zs" using d(1) by simp
      moreover have "\<forall>y\<in>set (x # ys). ratio s y < ratio s b" using d(2) True by simp
      ultimately have "first_best ratio s (x # xs) b" unfolding first_best_iff using d(3) by blast
      then show ?thesis ..
    next
      case False
      then have le: "ratio s b \<le> ratio s x" by simp
      have "\<forall>z\<in>set xs. ratio s z \<le> ratio s x"
      proof
        fix z assume "z \<in> set xs"
        then have "z \<in> set ys \<or> z = b \<or> z \<in> set zs" using d(1) by auto
        then have "ratio s z \<le> ratio s b" using d(2,3) by (auto simp: order_less_imp_le)
        then show "ratio s z \<le> ratio s x" using le by simp
      qed
      then have "x # xs = [] @ x # xs \<and> (\<forall>y\<in>set []. ratio s y < ratio s x) \<and>
          (\<forall>z\<in>set xs. ratio s z \<le> ratio s x)"
        by simp
      then have "first_best ratio s (x # xs) x" unfolding first_best_iff by blast
      then show ?thesis ..
    qed
  qed
qed

lemma best_match_start:
  "fst (best_match_loop ratio t s xs (None, 0)) = Some b \<longleftrightarrow>
     first_best ratio s xs b \<and> t \<le> ratio s b \<and> 0 < ratio s b"
proof -
  obtain bm' bs' where r: "best_match_loop ratio t s xs (None, 0) = (bm', bs')"
    by (cases "best_match_loop ratio t s xs (None, 0)")
  note c = best_match_loop_char[OF r]
  show ?thesis
  proof
    assume "fst (best_match_loop ratio t s xs (None, 0)) = Some b"
    then have "bm' = Some b" using r by simp
    then show "first_best ratio s xs b \<and> t \<le> ratio s b \<and> 0 < ratio s b"
      using c unfolding first_best_iff by auto
  next
    assume a: "first_best ratio s xs b \<and> t \<le> ratio s b \<and> 0 < ratio s b"
    then have "b \<in> set xs" using first_best_mem by blast
    then have "\<not> (\<forall>x\<in>set xs. \<not> (ratio s x > 0 \<and> ratio s x \<ge> t))" using a by auto
    then obtain b' where b': "bm' = Some b'" "first_best ratio s xs b'"
      using c unfolding first_best_iff by blast
    then have "b' = b" using a first_best_unique by blast
    then show "fst (best_match_loop ratio t s xs (None, 0)) = Some b" using r b' by simp
  qed
qed

lemma fuzzy_loop_lookup:
  "fuzzy_loop ratio t csv excel m s =
     (if s \<in> set csv \<and> truthy (fst (best_match_loop ratio t s excel (None, 0)))
      then fst (best_match_loop ratio t s excel (None, 0)) else m s)"
proof (induction csv arbitrary: m)
  case Nil
  then show ?case by simp
next
  case (Cons c csv)
  obtain bm bs where r: "best_match_loop ratio t c excel (None, 0) = (bm, bs)"
    by (cases "best_match_loop ratio t c excel (None, 0)")
  show ?case
  proof (cases "truthy bm")
    case True
    then obtain b where "bm = Some b" by (auto simp: truthy_def split: option.splits)
    then show ?thesis using r True Cons.IH by auto
  next
    case False
    then show ?thesis using r Cons.IH by auto
  qed
qed

lemma fuzzy_match_schools_Some:
  "fuzzy_match_schools ratio csv excel t s = Some b \<longleftrightarrow>
     s \<in> set csv \<and> b \<noteq> [] \<and> first_best ratio s excel b \<and> t \<le> ratio s b \<and> 0 < ratio s b"
proof -
  let ?bm = "fst (best_match_loop ratio t s excel (None, 0))"
  have look: "fuzzy_match_schools ratio csv excel t s =
      (if s \<in> set csv \<and> truthy ?bm then ?bm else None)"
    unfolding fuzzy_match_schools_def by (subst fuzzy_loop_lookup) simp
  have "fuzzy_match_schools ratio csv excel t s = Some b \<longleftrightarrow>
      s \<in> set csv \<and> b \<noteq> [] \<and> ?bm = Some b"
  proof (cases ?bm)
    case None
    then show ?thesis unfolding look by (simp add: truthy_def)
  next
    case (Some b0)
    then show ?thesis unfolding look by (auto simp: truthy_def)
  qed
  then show ?thesis by (simp only: best_match_start)
qed


subsection \<open>The claim about the fuzzy matcher\<close>

text \<open>
  Claim C3 says that a source name is mapped to the first-encountered target of maximum
  ratio exactly when that maximum is at least the threshold, for every threshold. With
  the threshold 0 and a target that shares no character with the source name, the
  maximum is 0 and reaches the threshold, and the name is not mapped: \<open>best_score\<close>
  starts at 0 and only a greater score replaces it.
\<close>

theorem fuzzy_match_schools_zero_threshold:
  "first_best example_ratio ''a'' [''b''] ''b'' \<and>
   (0 :: rat) \<le> example_ratio ''a'' ''b'' \<and>
   fuzzy_match_schools example_ratio [''a''] [''b''] 0 ''a'' = None \<and>
   \<not> (fuzzy_match_schools example_ratio [''a''] [''b''] 0 ''a'' = Some ''b'' \<longleftrightarrow>
        first_best example_ratio ''a'' [''b''] ''b'' \<and> 0 \<le> example_ratio ''a'' ''b'')"
  by code_simp

text \<open>The empty name meets an empty target name with the ratio 1 and is not mapped
  either, because \<open>if best_match:\<close> is false for the empty string. The amended claim below
  is about tables without an empty target name and says nothing on this case.\<close>

lemma fuzzy_match_schools_empty_name:
  "first_best example_ratio '''' [''''] '''' \<and> default_threshold \<le> example_ratio '''' '''' \<and>
   fuzzy_match_schools example_ratio [''''] [''''] default_threshold '''' = None"
  by code_simp

text \<open>
  Claim C3, amended. Where no target name is empty, for every threshold \<open>t\<close>
  \<open>fuzzy_match_schools\<close> maps a source name \<open>s\<close> to \<open>b\<close> exactly when \<open>s\<close> is among the
  source names, \<open>b\<close> is the first-encountered target name that attains the maximum ratio
  against \<open>s\<close>, and that maximum is at least \<open>t\<close> and greater than 0; every other
  source name is absent from the mapping. A source name that has the ratio 1 with
  itself, stands among the targets, and has no ratio above 1 is matched, to a target of
  ratio 1, for every threshold up to 1. A target whose ratio is below 0.8 is never the
  match at the default threshold.
\<close>

theorem fuzzy_match_schools_first_best:
  assumes "[] \<notin> set excel_names"
  shows "(fuzzy_match_schools ratio csv_names excel_names t s = Some b \<longleftrightarrow>
            s \<in> set csv_names \<and> first_best ratio s excel_names b \<and>
            t \<le> ratio s b \<and> 0 < ratio s b) \<and>
         (s \<in> set csv_names \<and> s \<in> set excel_names \<and> ratio s s = 1 \<and>
            (\<forall>c\<in>set excel_names. ratio s c \<le> 1) \<and> t \<le> 1 \<longrightarrow>
            (\<exists>c. fuzzy_match_schools ratio csv_names excel_names t s = Some c \<and> ratio s c = 1)) \<and>
         (ratio s b < default_threshold \<longrightarrow>
            fuzzy_match_schools ratio csv_names excel_names default_threshold s \<noteq> Some b)"
proof (intro conjI impI)
  show "fuzzy_match_schools ratio csv_names excel_names t s = Some b \<longleftrightarrow>
      s \<in> set csv_names \<and> first_best ratio s excel_names b \<and> t \<le> ratio s b \<and> 0 < ratio s b"
  proof -
    have "b \<noteq> []" if "first_best ratio s excel_names b"
      using that assms first_best_mem by fastforce
    then show ?thesis unfolding fuzzy_match_schools_Some by blast
  qed
next
  assume a: "s \<in> set csv_names \<and> s \<in> set excel_names \<and> ratio s s = 1 \<and>
      (\<forall>c\<in>set excel_names. ratio s c \<le> 1) \<and> t \<le> 1"
  then have "excel_names \<noteq> []" by auto
  then obtain c where c: "first_best ratio s excel_names c"
    using first_best_exists by blast
  have mem: "c \<in> set excel_names" using c by (rule first_best_mem)
  have "ratio s s \<le> ratio s c" using c a by (intro first_best_greatest) auto
  moreover have "ratio s c \<le> 1" using a mem by blast
  ultimately have one: "ratio s c = 1" using a by simp
  have "c \<noteq> []" using mem assms by auto
  then have "fuzzy_match_schools ratio csv_names excel_names t s = Some c"
    unfolding fuzzy_match_schools_Some using a c one by simp
  then show "\<exists>c. fuzzy_match_schools ratio csv_names excel_names t s = Some c \<and> ratio s c = 1"
    using one by blast
next
  assume "ratio s b < default_threshold"
  then show "fuzzy_match_schools ratio csv_names excel_names default_threshold s \<noteq> Some b"
    unfolding fuzzy_match_schools_Some by simp
qed

text \<open>The amended claim on a name that stands second among the targets.\<close>

theorem fuzzy_match_schools_first_best_witness:
  "[] \<notin> set [''b'', ''a''] \<and>
   first_best example_ratio ''a'' [''b'', ''a''] ''a'' \<and>
   fuzzy_match_schools example_ratio [''a''] [''b'', ''a''] default_threshold ''a'' = Some ''a''"
proof -
  have n: "[] \<notin> set [''b'', ''a'']"
    by simp
  have f: "first_best example_ratio ''a'' [''b'', ''a''] ''a''"
    by code_simp
  have r: "''a'' \<in> set [''a''] \<and> first_best example_ratio ''a'' [''b'', ''a''] ''a'' \<and>
      default_threshold \<le> example_ratio ''a'' ''a'' \<and> 0 < example_ratio ''a'' ''a''"
    by code_simp
  have m: "fuzzy_match_schools example_ratio [''a''] [''b'', ''a''] default_threshold ''a'' = Some ''a''"
    using r by (rule fuzzy_match_schools_first_best [OF n, THEN conjunct1, THEN iffD2])
  show ?thesis by (intro conjI n f m)
qed


section \<open>Properties of the resolver\<close>

lemma chunk_count:
  assumes "0 < b" and "xs \<noteq> []"
  shows "(length xs + b - 1) div b = Suc ((length (drop b xs) + b - 1) div b)"
proof (cases "b \<le> length xs")
  case True
  then have "length xs + b - 1 = (length xs - b + b - 1) + b" using assms(1) by simp
  then have "(length xs + b - 1) div b = (length xs - b + b - 1) div b + 1"
    using assms(1) by (metis div_add_self2 less_numeral_extra(3))
  then show ?thesis by simp
next
  case False
  then have "length (drop b xs) = 0" by simp
  moreover obtain n where n: "length xs = Suc n" using assms(2) by (cases xs) auto
  have "(length xs + b - 1) div b = 1"
    using False assms(1) n by (intro div_nat_eqI) auto
  ultimately show ?thesis using assms(1) by simp
qed

lemma chunks_Nil: "chunks b [] = []"
  by (simp add: chunks.simps)

lemma chunks_step: "0 < b \<Longrightarrow> xs \<noteq> [] \<Longrightarrow> chunks b xs = take b xs # chunks b (drop b xs)"
  by (subst chunks.simps) simp

lemma chunks_range:
  assumes "0 < b"
  shows "map (\<lambda>i. take b (drop i xs)) (map (\<lambda>k. k * b) [0..<(length xs + b - 1) div b]) = chunks b xs"
  using assms
proof (induction b xs rule: chunks.induct)
  case (1 k xs)
  show ?case
  proof (cases "xs = []")
    case True
    then show ?thesis using 1(2) by (simp add: chunks_Nil)
  next
    case False
    let ?m = "(length (drop k xs) + k - 1) div k"
    have count: "(length xs + k - 1) div k = Suc ?m" using 1(2) False by (rule chunk_count)
    have upt: "[0..<Suc ?m] = 0 # map Suc [0..<?m]"
      by (simp only: upt_conv_Cons[of 0 "Suc ?m", OF zero_less_Suc] map_Suc_upt)
    have IH: "map (\<lambda>i. take k (drop i (drop k xs))) (map (\<lambda>j. j * k) [0..<?m]) = chunks k (drop k xs)"
      using 1 False by simp
    have "map (\<lambda>i. take k (drop i xs)) (map (\<lambda>j. j * k) [0..<Suc ?m]) =
        take k xs # map (\<lambda>i. take k (drop i (drop k xs))) (map (\<lambda>j. j * k) [0..<?m])"
      unfolding upt by (simp add: o_def add.commute)
    then show ?thesis
      unfolding count IH using False 1(2) by (simp add: chunks_step)
  qed
qed

lemma concat_chunks: "0 < b \<Longrightarrow> concat (chunks b xs) = xs"
proof (induction b xs rule: chunks.induct)
  case (1 k xs)
  then show ?case by (cases "xs = []") (simp_all add: chunks_Nil chunks_step)
qed

lemma chunks_sizes: "c \<in> set (chunks b xs) \<Longrightarrow> 0 < length c \<and> length c \<le> b"
proof (induction b xs rule: chunks.induct)
  case (1 k xs)
  show ?case
  proof (cases "k = 0 \<or> xs = []")
    case True
    then show ?thesis using 1(2) by (subst (asm) chunks.simps) simp
  next
    case False
    then have "c = take k xs \<or> c \<in> set (chunks k (drop k xs))"
      using 1(2) by (simp add: chunks_step)
    then show ?thesis using 1(1) False by auto
  qed
qed

lemma replies_length:
  "replies post w ps = (rs, w') \<Longrightarrow> list_all (\<lambda>r. \<not> isl r) rs \<Longrightarrow> length rs = length ps"
proof (induction ps arbitrary: w rs w')
  case Nil
  then show ?case by simp
next
  case (Cons p ps)
  obtain reply w1 where p: "post w p = (reply, w1)" by (cases "post w p")
  show ?case
  proof (cases reply)
    case (Inl e)
    then show ?thesis using Cons.prems p by auto
  next
    case (Inr r)
    obtain rs1 w2 where rest: "replies post w1 ps = (rs1, w2)" by (cases "replies post w1 ps")
    then have "rs = Inr r # rs1" using Cons.prems(1) p Inr by simp
    then show ?thesis using Cons.IH[OF rest] Cons.prems(2) by simp
  qed
qed

lemma chunk_loop_replies:
  assumes "replies post (world n)
      (map (\<lambda>i. build_prompt dumps known_names (take b (drop i csv_names))) starts) = (rs, w')"
  shows "chunk_loop post loads dumps known_names csv_names b starts mapping n =
     (if list_all (\<lambda>r. \<not> isl r) rs then Inr (foldl (merge_step loads) mapping rs)
      else Inl (projl (last rs)),
      \<lparr>world = w', sent = sent n @ take (length rs)
         (map (\<lambda>i. build_prompt dumps known_names (take b (drop i csv_names))) starts)\<rparr>)"
  using assms
proof (induction starts arbitrary: mapping n rs w')
  case Nil
  then show ?case by simp
next
  case (Cons i starts)
  let ?p = "build_prompt dumps known_names (take b (drop i csv_names))"
  let ?ps = "map (\<lambda>i. build_prompt dumps known_names (take b (drop i csv_names))) starts"
  obtain reply w1 where p: "post (world n) ?p = (reply, w1)" by (cases "post (world n) ?p")
  let ?n1 = "\<lparr>world = w1, sent = sent n @ [?p]\<rparr>"
  have q: "query_ollama post n ?p = (reply, ?n1)" using p by (simp add: query_ollama_def)
  show ?case
  proof (cases reply)
    case (Inl e)
    then have "rs = [Inl e]" "w' = w1" using Cons.prems p by auto
    then show ?thesis using q Inl by simp
  next
    case (Inr response)
    obtain rs1 w2 where rest: "replies post w1 ?ps = (rs1, w2)" by (cases "replies post w1 ?ps")
    then have rs: "rs = Inr response # rs1" "w' = w2" using Cons.prems p Inr by auto
    have rest': "replies post (world ?n1) ?ps = (rs1, w2)" using rest by simp
    note IH = Cons.IH[OF rest']
    have loop: "chunk_loop post loads dumps known_names csv_names b (i # starts) mapping n =
        chunk_loop post loads dumps known_names csv_names b starts
          (merge_step loads mapping (Inr response)) ?n1"
      using q Inr by (simp add: merge_step_def split: option.split)
    have last: "\<not> list_all (\<lambda>r. \<not> isl r) rs1 \<Longrightarrow> last rs = last rs1"
      using rs by auto
    show ?thesis
      unfolding loop IH using rs last by simp
  qed
qed

lemma dom_merge:
  "k \<in> dom (foldl (merge_step loads) m rs) \<longleftrightarrow>
     k \<in> dom m \<or> (\<exists>response d. Inr response \<in> set rs \<and> parse_reply loads response = Some d \<and> k \<in> dom d)"
proof (induction rs arbitrary: m)
  case Nil
  then show ?case by simp
next
  case (Cons r rs)
  show ?case
  proof (cases r)
    case (Inl e)
    then have "merge_step loads m r = m" by (simp add: merge_step_def)
    then show ?thesis using Inl Cons.IH[of m] by (auto simp: dom_def)
  next
    case (Inr response)
    show ?thesis
    proof (cases "parse_reply loads response")
      case None
      then have "merge_step loads m r = m" using Inr by (simp add: merge_step_def)
      then show ?thesis using Inr None Cons.IH[of m] by (auto simp: dom_def)
    next
      case (Some d)
      then have "merge_step loads m r = m ++ d" using Inr by (simp add: merge_step_def)
      then show ?thesis using Inr Some Cons.IH[of "m ++ d"] by (auto simp: dom_def)
    qed
  qed
qed

lemma sublist_concat: "x \<in> set xss \<Longrightarrow> sublist x (concat xss)"
proof -
  assume "x \<in> set xss"
  then obtain as bs where "xss = as @ x # bs" by (meson split_list)
  then have "concat xss = concat as @ x @ concat bs" by simp
  then show ?thesis unfolding sublist_def by blast
qed

lemma prompt_contains:
  "sublist (dumps known_names) (build_prompt dumps known_names chunk) \<and>
   sublist (dumps chunk) (build_prompt dumps known_names chunk)"
  unfolding build_prompt_def by (intro conjI sublist_concat) simp_all

lemma chunks_full: "Suc j < length (chunks b xs) \<Longrightarrow> length (chunks b xs ! j) = b"
proof (induction b xs arbitrary: j rule: chunks.induct)
  case (1 k xs)
  have nz: "0 < k" "xs \<noteq> []"
    using 1(2) by (auto simp: chunks.simps[of k xs] split: if_splits)
  then have step: "chunks k xs = take k xs # chunks k (drop k xs)" by (rule chunks_step)
  show ?case
  proof (cases j)
    case 0
    then have "chunks k (drop k xs) \<noteq> []" using 1(2) step by auto
    then have "drop k xs \<noteq> []" using chunks_Nil by metis
    then show ?thesis using 0 step by simp
  next
    case (Suc j')
    then have "Suc j' < length (chunks k (drop k xs))" using 1(2) step by simp
    then have "length (chunks k (drop k xs) ! j') = k" using 1(1) nz by simp
    then show ?thesis using Suc step by simp
  qed
qed

lemma get_name_mapping_replies:
  assumes "0 < batch_size"
    and "replies post (world n)
           (map (build_prompt dumps known_names) (chunks (nat batch_size) csv_names)) = (rs, w')"
    and "list_all (\<lambda>r. \<not> isl r) rs"
  shows "get_name_mapping post loads dumps known_names csv_names batch_size n =
           (Inr (merge_parsed loads rs),
            \<lparr>world = w', sent = sent n @
               map (build_prompt dumps known_names) (chunks (nat batch_size) csv_names)\<rparr>)"
proof -
  let ?b = "nat batch_size"
  let ?starts = "map (\<lambda>k. k * ?b) [0..<(length csv_names + ?b - 1) div ?b]"
  let ?prompts = "map (build_prompt dumps known_names) (chunks ?b csv_names)"
  have b: "0 < ?b" using assms(1) by simp
  have range: "range_step (length csv_names) batch_size = Inr ?starts"
    using assms(1) by (simp add: range_step_def)
  have "map (\<lambda>i. build_prompt dumps known_names (take ?b (drop i csv_names))) ?starts =
      map (build_prompt dumps known_names) (map (\<lambda>i. take ?b (drop i csv_names)) ?starts)"
    by (simp add: o_def)
  also have "\<dots> = ?prompts"
    by (simp only: chunks_range[OF b, of csv_names])
  finally have prompts: "map (\<lambda>i. build_prompt dumps known_names (take ?b (drop i csv_names))) ?starts =
      ?prompts" .
  have len: "length rs = length ?prompts" using assms(2,3) by (rule replies_length)
  have "replies post (world n)
      (map (\<lambda>i. build_prompt dumps known_names (take ?b (drop i csv_names))) ?starts) = (rs, w')"
    using assms(2) prompts by simp
  from chunk_loop_replies[OF this, of loads Map.empty]
  have "chunk_loop post loads dumps known_names csv_names ?b ?starts Map.empty n =
      (Inr (merge_parsed loads rs), \<lparr>world = w', sent = sent n @ ?prompts\<rparr>)"
    unfolding prompts using assms(3) len by (simp add: merge_parsed_def)
  then show ?thesis by (simp add: get_name_mapping_def range)
qed


subsection \<open>The claim about the resolver\<close>

text \<open>
  Claim C6. \<open>get_name_mapping\<close> splits the unknown names into consecutive chunks of the
  batch size (15 by default; the last chunk may be shorter) and sends exactly one request
  per chunk, whose prompt contains the full list of known names. Where no request itself
  raises, the call returns: a chunk whose reply cannot be extracted or parsed adds nothing
  to the result and is not asked again, and the result is the merge, in the order of the
  chunks, of the dictionaries of all other replies. A name is a key of the result exactly
  when a reply that parses has it as a key.
\<close>

theorem get_name_mapping_chunks:
  assumes "0 < batch_size"
    and "replies post (world n)
           (map (build_prompt dumps known_names) (chunks (nat batch_size) csv_names)) = (rs, w')"
    and "list_all (\<lambda>r. \<not> isl r) rs"
  shows "get_name_mapping post loads dumps known_names csv_names batch_size n =
           (Inr (merge_parsed loads rs),
            \<lparr>world = w', sent = sent n @
               map (build_prompt dumps known_names) (chunks (nat batch_size) csv_names)\<rparr>) \<and>
         length rs = length (chunks (nat batch_size) csv_names) \<and>
         concat (chunks (nat batch_size) csv_names) = csv_names \<and>
         (\<forall>j. Suc j < length (chunks (nat batch_size) csv_names) \<longrightarrow>
            length (chunks (nat batch_size) csv_names ! j) = nat batch_size) \<and>
         (\<forall>c\<in>set (chunks (nat batch_size) csv_names).
            0 < length c \<and> length c \<le> nat batch_size \<and>
            sublist (dumps known_names) (build_prompt dumps known_names c)) \<and>
         (\<forall>k. k \<in> dom (merge_parsed loads rs) \<longleftrightarrow>
            (\<exists>response d. Inr response \<in> set rs \<and> parse_reply loads response = Some d \<and>
               k \<in> dom d)) \<and>
         default_batch_size = 15"
proof (intro conjI allI impI ballI)
  show "get_name_mapping post loads dumps known_names csv_names batch_size n =
           (Inr (merge_parsed loads rs),
            \<lparr>world = w', sent = sent n @
               map (build_prompt dumps known_names) (chunks (nat batch_size) csv_names)\<rparr>)"
    using assms by (rule get_name_mapping_replies)
  show "length rs = length (chunks (nat batch_size) csv_names)"
    using replies_length[OF assms(2,3)] by simp
  show "concat (chunks (nat batch_size) csv_names) = csv_names"
    using assms(1) by (simp add: concat_chunks)
  show "default_batch_size = 15"
    by (simp add: default_batch_size_def)
next
  fix j assume "Suc j < length (chunks (nat batch_size) csv_names)"
  then show "length (chunks (nat batch_size) csv_names ! j) = nat batch_size"
    by (rule chunks_full)
next
  fix c assume c: "c \<in> set (chunks (nat batch_size) csv_names)"
  show "0 < length c" using chunks_sizes[OF c] by simp
  show "length c \<le> nat batch_size" using chunks_sizes[OF c] by simp
  show "sublist (dumps known_names) (build_prompt dumps known_names c)"
    using prompt_contains by blast
next
  fix k
  show "k \<in> dom (merge_parsed loads rs) \<longleftrightarrow>
      (\<exists>response d. Inr response \<in> set rs \<and> parse_reply loads response = Some d \<and> k \<in> dom d)"
    unfolding merge_parsed_def dom_merge by simp
qed

text \<open>The claim on three names in chunks of two, where the reply to the first chunk holds
  no object and the reply to the second chunk does.\<close>

theorem get_name_mapping_chunks_witness:
  \<open>(0 :: int) < 2 \<and>
   replies example_service [''sorry'', ''ok {"a": null} bye'']
     (map (build_prompt example_dumps [''k'']) (chunks (nat 2) [''x'', ''y'', ''z''])) =
     ([Inr ''sorry'', Inr ''ok {"a": null} bye''], []) \<and>
   list_all (\<lambda>r. \<not> isl r) [Inr ''sorry'', Inr ''ok {"a": null} bye''] \<and>
   parse_reply example_loads ''sorry'' = None \<and>
   merge_parsed example_loads [Inr ''sorry'', Inr ''ok {"a": null} bye''] ''a'' = Some JNull \<and>
   get_name_mapping example_service example_loads example_dumps [''k''] [''x'', ''y'', ''z''] 2
     \<lparr>world = [''sorry'', ''ok {"a": null} bye''], sent = []\<rparr> =
     (Inr (merge_parsed example_loads [Inr ''sorry'', Inr ''ok {"a": null} bye'']),
      \<lparr>world = [], sent = [] @ map (build_prompt example_dumps [''k''])
         (chunks (nat 2) [''x'', ''y'', ''z''])\<rparr>)\<close>
proof -
  have h1: "(0 :: int) < 2"
    by simp
  have h2: \<open>replies example_service
      (world \<lparr>world = [''sorry'', ''ok {"a": null} bye''], sent = []\<rparr>)
      (map (build_prompt example_dumps [''k'']) (chunks (nat 2) [''x'', ''y'', ''z''])) =
      ([Inr ''sorry'', Inr ''ok {"a": null} bye''], [])\<close>
    by code_simp
  have h3: \<open>list_all (\<lambda>r. \<not> isl r) [Inr ''sorry'', Inr ''ok {"a": null} bye'']\<close>
    by simp
  have p: \<open>parse_reply example_loads ''sorry'' = None\<close>
    by code_simp
  have m: \<open>merge_parsed example_loads [Inr ''sorry'', Inr ''ok {"a": null} bye''] ''a'' = Some JNull\<close>
    by code_simp
  note t = get_name_mapping_chunks [OF h1 h2 h3, of example_loads, THEN conjunct1]
  show ?thesis
    using h1 h2 h3 p m t by simp
qed
section \<open>Properties of the left join and of \<open>process_dataset\<close>\<close>

lemma merge_left_joined:
  "merge_left left right left_on right_on =
     concat (map (\<lambda>l. joined l (filter (\<lambda>r. right_on r = left_on l) right)) left)"
  by (simp add: merge_left_def)

lemma fst_joined: "map fst (joined l matching) = replicate (max 1 (length matching)) l"
  by (cases matching) (simp_all add: joined_def o_def map_replicate_const)

lemma set_joined:
  "(l', r) \<in> set (joined l matching) \<longleftrightarrow>
     l' = l \<and> (case r of None \<Rightarrow> matching = [] | Some e \<Rightarrow> e \<in> set matching)"
  by (cases matching; cases r) (auto simp: joined_def)

lemma filter_key_distinct:
  "distinct (map right_on right) \<Longrightarrow> length (filter (\<lambda>r. right_on r = k) right) \<le> 1"
proof (induction right)
  case Nil
  then show ?case by simp
next
  case (Cons r right)
  show ?case
  proof (cases "right_on r = k")
    case True
    have "right_on r \<notin> right_on ` set right" using Cons.prems by simp
    then have "\<forall>e\<in>set right. right_on e \<noteq> k" using True by (metis imageI)
    then have "filter (\<lambda>r. right_on r = k) right = []" by (simp add: filter_empty_conv)
    then show ?thesis using True by simp
  next
    case False
    then show ?thesis using Cons by simp
  qed
qed

lemma fst_merge_left:
  "map fst (merge_left left right left_on right_on) =
     concat (map (\<lambda>l. replicate (max 1 (length (filter (\<lambda>r. right_on r = left_on l) right))) l) left)"
  by (simp add: merge_left_joined map_concat o_def fst_joined)

lemma fst_merge_left_distinct:
  assumes "distinct (map right_on right)"
  shows "map fst (merge_left left right left_on right_on) = left"
proof -
  have "max 1 (length (filter (\<lambda>r. right_on r = left_on l) right)) = 1" for l
    using filter_key_distinct[OF assms, of "left_on l"] by simp
  then show ?thesis by (induction left) (simp_all add: fst_merge_left)
qed

lemma set_fst_merge_left: "set (map fst (merge_left left right left_on right_on)) = set left"
  unfolding fst_merge_left by (induction left) auto

lemma set_merge_left:
  "(l, r) \<in> set (merge_left left right left_on right_on) \<longleftrightarrow>
     l \<in> set left \<and>
     (case r of
        None \<Rightarrow> \<forall>e\<in>set right. right_on e \<noteq> left_on l
      | Some e \<Rightarrow> e \<in> set right \<and> right_on e = left_on l)"
  by (cases r) (auto simp: merge_left_joined set_joined filter_empty_conv)

lemma process_dataset_merged:
  assumes "process_dataset ratio post loads dumps validate csv_df excel_df cached_mapping n =
      (Inr (merged, final_mapping), n')"
  shows "merged = merge_left
      (map (map_csv_row final_mapping) (map name_csv_row (filter_test_schools csv_df)))
      (map name_excel_row excel_df) Mapped_Normalized_Name
      (JStr \<circ> Normalized_School_Name_excel)"
  using assms unfolding process_dataset_def Let_def
  by (auto split: prod.splits sum.splits if_splits option.splits)

lemma process_dataset_final_mapping:
  assumes "process_dataset ratio post loads dumps validate csv_df excel_df cached_mapping n =
      (Inr (merged, final_mapping), n')"
  shows "let csv_names = sorted_unique (map Normalized_School_Name_csv
                (map name_csv_row (filter_test_schools csv_df)));
             excel_names = sorted_unique (map Normalized_School_Name_excel
                (map name_excel_row excel_df));
             cached_matches = cached_matches_of cached_mapping csv_names;
             unmatched_names = filter (\<lambda>name. cached_matches name = None) csv_names;
             fuzzy_matches = fuzzy_match_schools ratio unmatched_names excel_names default_threshold;
             still_unmatched = filter (\<lambda>name. fuzzy_matches name = None) unmatched_names
         in \<exists>ollama_mapping.
              (if still_unmatched \<noteq> []
               then get_name_mapping post loads dumps excel_names still_unmatched
                      default_batch_size n
               else (Inr Map.empty, n)) = (Inr ollama_mapping, n') \<and>
              final_mapping =
                combine_mappings cached_matches (map_option JStr \<circ> fuzzy_matches) ollama_mapping"
  using assms unfolding process_dataset_def Let_def
  by (auto split: prod.splits sum.splits if_splits option.splits)

lemma combine_mappings_lookup:
  "combine_mappings cached fuzzy resolver k =
     (case resolver k of
        Some v \<Rightarrow> Some v
      | None \<Rightarrow> (case fuzzy k of Some v \<Rightarrow> Some v | None \<Rightarrow> cached k))"
  by (simp add: combine_mappings_def map_add_def split: option.split)

lemma combine_mappings_example:
  "combine_mappings [''a'' \<mapsto> JStr ''x''] [''a'' \<mapsto> JStr ''y'', ''b'' \<mapsto> JStr ''y'']
     [''b'' \<mapsto> JStr ''z''] = [''a'' \<mapsto> JStr ''y'', ''b'' \<mapsto> JStr ''z'']"
  by (rule ext) (simp add: combine_mappings_lookup)

lemma run_result:
  "(case x of (Inr (m, f), n) \<Rightarrow> True | (Inl e, n) \<Rightarrow> False) \<Longrightarrow> \<exists>m f n. x = (Inr (m, f), n)"
  by (auto split: prod.splits sum.splits)

lemma source_of_mapped: "csv_source (csv_named (map_csv_row final_mapping (name_csv_row r))) = r"
  by (simp add: map_csv_row_def name_csv_row_def)

lemma isin_test_schools:
  "isin v test_schools \<longleftrightarrow>
     v \<in> {Some ''Test Site Elementary School'', Some ''Test Site Elementary'',
          Some ''test site elementary school''}"
  by (cases v) (auto simp: isin_def test_schools_def)

lemma filter_test_schools_raw:
  "filter_test_schools csv_df =
     filter (\<lambda>r. School_Name r \<notin>
       {Some ''Test Site Elementary School'', Some ''Test Site Elementary'',
        Some ''test site elementary school''}) csv_df"
  unfolding filter_test_schools_def isin_test_schools ..

text \<open>The merged frame is one block of rows per row of the filtered source table.\<close>

lemma merged_blocks:
  assumes "process_dataset ratio post loads dumps validate csv_df excel_df cached_mapping n =
      (Inr (merged, final_mapping), n')"
  shows "merged = concat (map
      (\<lambda>source. joined (map_csv_row final_mapping (name_csv_row source))
         (filter (\<lambda>e. JStr (Normalized_School_Name_excel e) =
              Mapped_Normalized_Name (map_csv_row final_mapping (name_csv_row source)))
            (map name_excel_row excel_df)))
      (filter_test_schools csv_df))"
  unfolding process_dataset_merged[OF assms] merge_left_def by (simp add: o_def)

lemma sources_joined:
  "map (csv_source \<circ> csv_named \<circ> fst) (joined (map_csv_row final_mapping (name_csv_row source)) matching) =
     replicate (max 1 (length matching)) source"
proof -
  have "map (csv_source \<circ> csv_named \<circ> fst) (joined l matching) =
      map (csv_source \<circ> csv_named) (map fst (joined l matching))" for l :: "'a csv_mapped"
    by simp
  then show ?thesis
    unfolding fst_joined by (simp add: source_of_mapped)
qed

lemma merged_sources:
  assumes "process_dataset ratio post loads dumps validate csv_df excel_df cached_mapping n =
      (Inr (merged, final_mapping), n')"
  shows "map (csv_source \<circ> csv_named \<circ> fst) merged = concat (map
      (\<lambda>source. replicate (max 1 (length
         (filter (\<lambda>e. JStr (Normalized_School_Name_excel e) =
              Mapped_Normalized_Name (map_csv_row final_mapping (name_csv_row source)))
            (map name_excel_row excel_df)))) source)
      (filter_test_schools csv_df))"
  unfolding merged_blocks[OF assms] map_concat map_map o_def
  using sources_joined[unfolded o_def] by metis

lemma zip_counts:
  "concat (map (\<lambda>(c, s). replicate c s) (zip (map f xs) xs)) = concat (map (\<lambda>s. replicate (f s) s) xs)"
  by (induction xs) auto

lemma filter_joined:
  "filter (\<lambda>(l', r). Q l') (joined l matching) = (if Q l then joined l matching else [])"
  by (cases matching) (auto simp: joined_def)

lemma concat_singletons:
  "concat (map (\<lambda>s. if s = a then [x] else []) xs) = replicate (count_list xs a) x"
  by (induction xs) auto

text \<open>A name column without a string stops the run at \<open>.str\<close>.\<close>

lemma process_dataset_float_column:
  "float_column (map School_Name csv_df) \<or> float_column (map School_Name_excel excel_df) \<Longrightarrow>
   process_dataset ratio post loads dumps validate csv_df excel_df cached_mapping n =
     (Inl AttributeError, n)"
  by (auto simp: process_dataset_def)

subsection \<open>The claims about \<open>process_dataset\<close>\<close>

text \<open>
  The claims below are about the runs of \<open>process_dataset\<close> that return: a run in which
  \<open>.str\<close>, a request of the resolver or the merge raises produces no table. Where a
  statement depends on the normalized names, the names of the two tables are ASCII texts.
\<close>

text \<open>
  Claim C5. In a run of \<open>process_dataset\<close> on tables of ASCII names that returns, the
  resolver has been called on the known names and on the names that neither the cache nor
  the fuzzy matcher has resolved, or not at all when no name is left, and
  \<open>final_mapping\<close> is the union of the cached matches, the fuzzy matches and the mapping
  that this call has returned, in this order, a later tier winning on a common key: the
  value of a key is that of the resolver's mapping if it has the key, else the fuzzy match
  of the key if it has one, else the cached value. The same holds of the combination of
  any three mappings, and the mappings \<open>{"a": "x"}\<close>, \<open>{"a": "y", "b": "y"}\<close> and
  \<open>{"b": "z"}\<close> combine to \<open>{"a": "y", "b": "z"}\<close>.
\<close>

theorem combine_mappings_precedence:
  "(process_dataset ratio post loads dumps validate csv_df excel_df cached_mapping n =
      (Inr (merged, final_mapping), n') \<and>
    ascii_names csv_df excel_df \<longrightarrow>
    (let csv_names = sorted_unique (map Normalized_School_Name_csv
                (map name_csv_row (filter_test_schools csv_df)));
         excel_names = sorted_unique (map Normalized_School_Name_excel
                (map name_excel_row excel_df));
         cached_matches = cached_matches_of cached_mapping csv_names;
         unmatched_names = filter (\<lambda>name. cached_matches name = None) csv_names;
         fuzzy_matches = fuzzy_match_schools ratio unmatched_names excel_names default_threshold;
         still_unmatched = filter (\<lambda>name. fuzzy_matches name = None) unmatched_names
     in \<exists>ollama_mapping.
          (if still_unmatched \<noteq> []
           then get_name_mapping post loads dumps excel_names still_unmatched
                  default_batch_size n
           else (Inr Map.empty, n)) = (Inr ollama_mapping, n') \<and>
          (\<forall>k. final_mapping k =
             (case ollama_mapping k of
                Some v \<Rightarrow> Some v
              | None \<Rightarrow>
                  (case fuzzy_matches k of
                     Some b \<Rightarrow> Some (JStr b)
                   | None \<Rightarrow> cached_matches k))))) \<and>
   combine_mappings cached fuzzy resolver k =
     (case resolver k of
        Some v \<Rightarrow> Some v
      | None \<Rightarrow> (case fuzzy k of Some v \<Rightarrow> Some v | None \<Rightarrow> cached k)) \<and>
   combine_mappings [''a'' \<mapsto> JStr ''x''] [''a'' \<mapsto> JStr ''y'', ''b'' \<mapsto> JStr ''y'']
     [''b'' \<mapsto> JStr ''z''] = [''a'' \<mapsto> JStr ''y'', ''b'' \<mapsto> JStr ''z'']"
proof (intro conjI impI)
  assume "process_dataset ratio post loads dumps validate csv_df excel_df cached_mapping n =
      (Inr (merged, final_mapping), n') \<and>
    ascii_names csv_df excel_df"
  then have run: "process_dataset ratio post loads dumps validate csv_df excel_df cached_mapping n =
      (Inr (merged, final_mapping), n')"
    by (rule conjunct1)
  have look: "combine_mappings c (map_option JStr \<circ> f) r k =
      (case r k of
         Some v \<Rightarrow> Some v
       | None \<Rightarrow> (case f k of Some b \<Rightarrow> Some (JStr b) | None \<Rightarrow> c k))"
    for c r :: dict and f :: "string \<rightharpoonup> string" and k
    unfolding combine_mappings_lookup by (simp split: option.split)
  define csv_names where "csv_names = sorted_unique (map Normalized_School_Name_csv
      (map name_csv_row (filter_test_schools csv_df)))"
  define excel_names where "excel_names = sorted_unique (map Normalized_School_Name_excel
      (map name_excel_row excel_df))"
  define cached_matches where "cached_matches = cached_matches_of cached_mapping csv_names"
  define unmatched_names where
    "unmatched_names = filter (\<lambda>name. cached_matches name = None) csv_names"
  define fuzzy_matches where
    "fuzzy_matches = fuzzy_match_schools ratio unmatched_names excel_names default_threshold"
  define still_unmatched where
    "still_unmatched = filter (\<lambda>name. fuzzy_matches name = None) unmatched_names"
  note defs = csv_names_def excel_names_def cached_matches_def unmatched_names_def
    fuzzy_matches_def still_unmatched_def
  obtain ollama_mapping where
    call: "(if still_unmatched \<noteq> []
           then get_name_mapping post loads dumps excel_names still_unmatched
                  default_batch_size n
           else (Inr Map.empty, n)) = (Inr ollama_mapping, n')"
    and final: "final_mapping =
        combine_mappings cached_matches (map_option JStr \<circ> fuzzy_matches) ollama_mapping"
    using process_dataset_final_mapping[OF run] unfolding Let_def defs by blast
  have "\<forall>k. final_mapping k =
      (case ollama_mapping k of
         Some v \<Rightarrow> Some v
       | None \<Rightarrow>
           (case fuzzy_matches k of
              Some b \<Rightarrow> Some (JStr b)
            | None \<Rightarrow> cached_matches k))"
    unfolding final by (simp add: look)
  then have "\<exists>ollama_mapping.
      (if still_unmatched \<noteq> []
       then get_name_mapping post loads dumps excel_names still_unmatched
              default_batch_size n
       else (Inr Map.empty, n)) = (Inr ollama_mapping, n') \<and>
      (\<forall>k. final_mapping k =
         (case ollama_mapping k of
            Some v \<Rightarrow> Some v
          | None \<Rightarrow>
              (case fuzzy_matches k of
                 Some b \<Rightarrow> Some (JStr b)
               | None \<Rightarrow> cached_matches k)))"
    using call by blast
  then show "let csv_names = sorted_unique (map Normalized_School_Name_csv
                (map name_csv_row (filter_test_schools csv_df)));
         excel_names = sorted_unique (map Normalized_School_Name_excel
                (map name_excel_row excel_df));
         cached_matches = cached_matches_of cached_mapping csv_names;
         unmatched_names = filter (\<lambda>name. cached_matches name = None) csv_names;
         fuzzy_matches = fuzzy_match_schools ratio unmatched_names excel_names default_threshold;
         still_unmatched = filter (\<lambda>name. fuzzy_matches name = None) unmatched_names
     in \<exists>ollama_mapping.
          (if still_unmatched \<noteq> []
           then get_name_mapping post loads dumps excel_names still_unmatched
                  default_batch_size n
           else (Inr Map.empty, n)) = (Inr ollama_mapping, n') \<and>
          (\<forall>k. final_mapping k =
             (case ollama_mapping k of
                Some v \<Rightarrow> Some v
              | None \<Rightarrow>
                  (case fuzzy_matches k of
                     Some b \<Rightarrow> Some (JStr b)
                   | None \<Rightarrow> cached_matches k)))"
    unfolding Let_def defs .
next
  show "combine_mappings cached fuzzy resolver k =
     (case resolver k of
        Some v \<Rightarrow> Some v
      | None \<Rightarrow> (case fuzzy k of Some v \<Rightarrow> Some v | None \<Rightarrow> cached k))"
    by (rule combine_mappings_lookup)
  show "combine_mappings [''a'' \<mapsto> JStr ''x''] [''a'' \<mapsto> JStr ''y'', ''b'' \<mapsto> JStr ''y'']
     [''b'' \<mapsto> JStr ''z''] = [''a'' \<mapsto> JStr ''y'', ''b'' \<mapsto> JStr ''z'']"
    by (rule combine_mappings_example)
qed

text \<open>The claim on a run with a common key: the cache maps \<open>a\<close> to \<open>x\<close>, the
  resolver is asked about \<open>c\<close> and answers \<open>{"a": null}\<close>, and the resolver's value
  of \<open>a\<close> replaces the cached one.\<close>

theorem combine_mappings_precedence_witness:
  \<open>\<exists>merged final_mapping n'.
     process_dataset example_ratio example_service example_loads example_dumps example_validate
       [\<lparr>School_Name = Some ''A'', csv_columns = ()\<rparr>,
        \<lparr>School_Name = Some ''C'', csv_columns = ()\<rparr>]
       [\<lparr>School_Name_excel = Some ''B'', excel_columns = ()\<rparr>]
       (Some [''a'' \<mapsto> JStr ''x''])
       \<lparr>world = [''{"a": null}''], sent = []\<rparr> = (Inr (merged, final_mapping), n') \<and>
     ascii_names
       [\<lparr>School_Name = Some ''A'', csv_columns = ()\<rparr>,
        \<lparr>School_Name = Some ''C'', csv_columns = ()\<rparr>]
       [\<lparr>School_Name_excel = Some ''B'', excel_columns = ()\<rparr>] \<and>
     cached_matches_of (Some [''a'' \<mapsto> JStr ''x'']) [''a'', ''c''] ''a'' = Some (JStr ''x'') \<and>
     final_mapping ''a'' = Some JNull\<close>
proof -
  let ?csv = "[\<lparr>School_Name = Some ''A'', csv_columns = ()\<rparr>,
        \<lparr>School_Name = Some ''C'', csv_columns = ()\<rparr>]"
  let ?excel = "[\<lparr>School_Name_excel = Some ''B'', excel_columns = ()\<rparr>]"
  let ?cache = "Some [''a'' \<mapsto> JStr ''x'']"
  have \<open>case process_dataset example_ratio example_service example_loads example_dumps
       example_validate ?csv ?excel ?cache \<lparr>world = [''{"a": null}''], sent = []\<rparr> of
       (Inr (m, f), n) \<Rightarrow> True | (Inl e, n) \<Rightarrow> False\<close>
    by code_simp
  from run_result[OF this] obtain merged final_mapping n' where
    eq: \<open>process_dataset example_ratio example_service example_loads example_dumps
       example_validate ?csv ?excel ?cache \<lparr>world = [''{"a": null}''], sent = []\<rparr> =
       (Inr (merged, final_mapping), n')\<close>
    by blast
  have a: "ascii_names ?csv ?excel"
    by code_simp
  have f1: "sorted_unique (map Normalized_School_Name_csv (map name_csv_row
      (filter_test_schools ?csv))) = [''a'', ''c'']"
    by code_simp
  have f2: "sorted_unique (map Normalized_School_Name_excel (map name_excel_row ?excel)) = [''b'']"
    by code_simp
  have f3: "filter (\<lambda>name. cached_matches_of ?cache [''a'', ''c''] name = None) [''a'', ''c''] = [''c'']"
    by code_simp
  have f4: "fuzzy_match_schools example_ratio [''c''] [''b''] default_threshold = Map.empty"
    by (simp add: fuzzy_match_schools_def example_ratio_def truthy_def)
  have cached: "cached_matches_of ?cache [''a'', ''c''] ''a'' = Some (JStr ''x'')"
    by code_simp
  have reply: \<open>case get_name_mapping example_service example_loads example_dumps [''b''] [''c'']
      default_batch_size \<lparr>world = [''{"a": null}''], sent = []\<rparr> of
      (Inr m, n) \<Rightarrow> m ''a'' = Some JNull | (Inl e, n) \<Rightarrow> False\<close>
    by code_simp
  from combine_mappings_precedence [THEN conjunct1, THEN mp, OF conjI, OF eq a]
  obtain ollama_mapping where
    call: \<open>get_name_mapping example_service example_loads example_dumps [''b''] [''c'']
      default_batch_size \<lparr>world = [''{"a": null}''], sent = []\<rparr> = (Inr ollama_mapping, n')\<close>
    and final: "final_mapping ''a'' =
      (case ollama_mapping ''a'' of
         Some v \<Rightarrow> Some v
       | None \<Rightarrow> (case Map.empty ''a'' of Some b \<Rightarrow> Some (JStr b)
           | None \<Rightarrow> cached_matches_of ?cache [''a'', ''c''] ''a''))"
    unfolding Let_def f1 f2 f3 f4 by auto
  have "ollama_mapping ''a'' = Some JNull"
    using reply unfolding call by simp
  then have overridden: "final_mapping ''a'' = Some JNull"
    using final by simp
  show ?thesis
    by (rule exI[of _ merged], rule exI[of _ final_mapping], rule exI[of _ n'])
      (intro conjI eq a cached overridden)
qed

text \<open>
  Claim C2 says that the merged table has exactly as many rows as the filtered source
  table, whatever the target table contains. It has not: the left join pairs a source
  row with every target row of its key, and two target rows can have the same
  normalized key. One source row "Lee High" and the target rows "Lee High School" and
  "Lee HS" give two merged rows.
\<close>

theorem merged_rows_duplicated:
  "case process_dataset example_ratio example_service example_loads example_dumps example_validate
       [\<lparr>School_Name = Some ''Lee High'', csv_columns = ()\<rparr>]
       [\<lparr>School_Name_excel = Some ''Lee High School'', excel_columns = ()\<rparr>,
        \<lparr>School_Name_excel = Some ''Lee HS'', excel_columns = ()\<rparr>]
       None \<lparr>world = [], sent = []\<rparr> of
     (Inr (merged, final_mapping), n') \<Rightarrow>
       length (filter_test_schools [\<lparr>School_Name = Some ''Lee High'', csv_columns = ()\<rparr>]) = 1 \<and>
       length merged = 2 \<and>
       map (School_Name \<circ> csv_source \<circ> csv_named \<circ> fst) merged = [Some ''Lee High'', Some ''Lee High'']
   | (Inl e, n') \<Rightarrow> False"
  by code_simp

text \<open>
  Claim C2, amended. In a run on tables of ASCII names that returns, the source rows of
  the merged table are the rows of the filtered source table in their order, each row
  repeated once per target row whose normalized key is the row's mapped name, and
  appearing once if there is none. So every row of the filtered source table appears at
  least once and no other row appears, the merged table has at least as many rows as the
  filtered source table, and where no two target rows share a normalized key it has
  exactly as many, each source row appearing exactly once and in its order.
\<close>

theorem merged_row_count:
  assumes "process_dataset ratio post loads dumps validate csv_df excel_df cached_mapping n =
      (Inr (merged, final_mapping), n')"
    and "ascii_names csv_df excel_df"
  shows "map (csv_source \<circ> csv_named \<circ> fst) merged =
           concat (map (\<lambda>source. replicate (max 1 (length (filter
               (\<lambda>e. JStr (Normalized_School_Name_excel e) =
                  Mapped_Normalized_Name (map_csv_row final_mapping (name_csv_row source)))
               (map name_excel_row excel_df)))) source)
             (filter_test_schools csv_df)) \<and>
         length merged =
           sum_list (map (\<lambda>source. max 1 (length (filter
               (\<lambda>e. JStr (Normalized_School_Name_excel e) =
                  Mapped_Normalized_Name (map_csv_row final_mapping (name_csv_row source)))
               (map name_excel_row excel_df))))
             (filter_test_schools csv_df)) \<and>
         length (filter_test_schools csv_df) \<le> length merged \<and>
         set (map (csv_source \<circ> csv_named \<circ> fst) merged) = set (filter_test_schools csv_df) \<and>
         (distinct (map (Normalized_School_Name_excel \<circ> name_excel_row) excel_df) \<longrightarrow>
            length merged = length (filter_test_schools csv_df) \<and>
            map (csv_source \<circ> csv_named \<circ> fst) merged = filter_test_schools csv_df)"
proof (intro conjI impI)
  let ?copies = "\<lambda>source. max 1 (length (filter
      (\<lambda>e. JStr (Normalized_School_Name_excel e) =
         Mapped_Normalized_Name (map_csv_row final_mapping (name_csv_row source)))
      (map name_excel_row excel_df)))"
  let ?kept = "filter_test_schools csv_df"
  note m = process_dataset_merged[OF assms(1)]
  show sources: "map (csv_source \<circ> csv_named \<circ> fst) merged =
      concat (map (\<lambda>source. replicate (?copies source) source) ?kept)"
    by (rule merged_sources[OF assms(1)])
  have "length merged = length (map (csv_source \<circ> csv_named \<circ> fst) merged)" by simp
  also have "\<dots> = sum_list (map ?copies ?kept)"
    unfolding sources by (simp add: length_concat o_def)
  finally show count: "length merged = sum_list (map ?copies ?kept)" .
  have "sum_list (map (\<lambda>source. 1) ?kept) \<le> sum_list (map ?copies ?kept)"
    by (intro sum_list_mono) simp
  then show "length ?kept \<le> length merged"
    unfolding count by (simp add: sum_list_triv)
  have "set (map (csv_source \<circ> csv_named \<circ> fst) merged) =
      (csv_source \<circ> csv_named) ` set (map fst merged)"
    by (simp add: image_comp)
  also have "\<dots> = (csv_source \<circ> csv_named) `
      set (map (map_csv_row final_mapping) (map name_csv_row ?kept))"
    unfolding m set_fst_merge_left ..
  also have "\<dots> = set ?kept"
    by (simp add: image_comp o_def source_of_mapped)
  finally show "set (map (csv_source \<circ> csv_named \<circ> fst) merged) = set ?kept" .
next
  let ?kept = "filter_test_schools csv_df"
  note m = process_dataset_merged[OF assms(1)]
  assume "distinct (map (Normalized_School_Name_excel \<circ> name_excel_row) excel_df)"
  then have "distinct (map Normalized_School_Name_excel (map name_excel_row excel_df))"
    by simp
  then have d: "distinct (map (JStr \<circ> Normalized_School_Name_excel) (map name_excel_row excel_df))"
    by (simp add: distinct_map inj_on_def)
  have f: "map fst merged = map (map_csv_row final_mapping) (map name_csv_row ?kept)"
    unfolding m using d by (rule fst_merge_left_distinct)
  then have "length (map fst merged) = length ?kept" by simp
  then show "length merged = length ?kept" by simp
  have "map (csv_source \<circ> csv_named \<circ> fst) merged = map (csv_source \<circ> csv_named) (map fst merged)"
    by simp
  then show "map (csv_source \<circ> csv_named \<circ> fst) merged = ?kept"
    unfolding f by (simp add: o_def source_of_mapped)
qed

text \<open>The amended claim on the end-to-end scenario of the specification.\<close>

theorem merged_row_count_witness:
  "\<exists>merged final_mapping n'.
     process_dataset example_ratio example_service example_loads example_dumps example_validate
       [\<lparr>School_Name = Some ''Test Site Elementary School'', csv_columns = ()\<rparr>,
        \<lparr>School_Name = Some ''Aldrin Elementary School'', csv_columns = ()\<rparr>]
       [\<lparr>School_Name_excel = Some ''Aldrin ES'', excel_columns = ()\<rparr>]
       None \<lparr>world = [], sent = []\<rparr> = (Inr (merged, final_mapping), n') \<and>
     ascii_names
       [\<lparr>School_Name = Some ''Test Site Elementary School'', csv_columns = ()\<rparr>,
        \<lparr>School_Name = Some ''Aldrin Elementary School'', csv_columns = ()\<rparr>]
       [\<lparr>School_Name_excel = Some ''Aldrin ES'', excel_columns = ()\<rparr>] \<and>
     distinct (map (Normalized_School_Name_excel \<circ> name_excel_row)
       [\<lparr>School_Name_excel = Some ''Aldrin ES'', excel_columns = ()\<rparr>]) \<and>
     length merged = 1 \<and>
     map (csv_source \<circ> csv_named \<circ> fst) merged =
       [\<lparr>School_Name = Some ''Aldrin Elementary School'', csv_columns = ()\<rparr>]"
proof -
  let ?csv = "[\<lparr>School_Name = Some ''Test Site Elementary School'', csv_columns = ()\<rparr>,
        \<lparr>School_Name = Some ''Aldrin Elementary School'', csv_columns = ()\<rparr>]"
  let ?excel = "[\<lparr>School_Name_excel = Some ''Aldrin ES'', excel_columns = ()\<rparr>]"
  have "case process_dataset example_ratio example_service example_loads example_dumps
       example_validate ?csv ?excel None \<lparr>world = [], sent = []\<rparr> of
       (Inr (m, f), n) \<Rightarrow> True | (Inl e, n) \<Rightarrow> False"
    by code_simp
  from run_result[OF this] obtain merged final_mapping n' where
    eq: "process_dataset example_ratio example_service example_loads example_dumps
       example_validate ?csv ?excel None \<lparr>world = [], sent = []\<rparr> =
       (Inr (merged, final_mapping), n')"
    by blast
  have a: "ascii_names ?csv ?excel"
    by code_simp
  have d: "distinct (map (Normalized_School_Name_excel \<circ> name_excel_row) ?excel)"
    by simp
  have k: "filter_test_schools ?csv =
      [\<lparr>School_Name = Some ''Aldrin Elementary School'', csv_columns = ()\<rparr>]"
    by code_simp
  note t = merged_row_count [OF eq a, THEN conjunct2, THEN conjunct2, THEN conjunct2,
      THEN conjunct2, THEN mp, OF d]
  have l: "length merged = 1" using t k by simp
  have s: "map (csv_source \<circ> csv_named \<circ> fst) merged =
      [\<lparr>School_Name = Some ''Aldrin Elementary School'', csv_columns = ()\<rparr>]"
    using t k by simp
  show ?thesis
    by (rule exI[of _ merged], rule exI[of _ final_mapping], rule exI[of _ n'])
      (intro conjI eq a d l s)
qed

text \<open>
  Claim C8 says that the mapped name of a row is the value of the final mapping wherever
  the normalized name is a key. Where the resolver answers \<open>{"a": null}\<close>, the name
  \<open>a\<close> is a key of the final mapping with the value \<open>None\<close>, and the mapped name of the
  row is the normalized name \<open>a\<close>: \<open>fillna\<close> treats the value \<open>None\<close> as missing.
\<close>

theorem mapped_name_null_entry:
  \<open>case process_dataset example_ratio example_service example_loads example_dumps example_validate
       [\<lparr>School_Name = Some ''A'', csv_columns = ()\<rparr>]
       [\<lparr>School_Name_excel = Some ''B'', excel_columns = ()\<rparr>]
       None \<lparr>world = [''{"a": null}''], sent = []\<rparr> of
     (Inr (merged, final_mapping), n') \<Rightarrow>
       final_mapping ''a'' = Some JNull \<and>
       map (\<lambda>(l, r). (Normalized_School_Name_csv (csv_named l), Mapped_Normalized_Name l)) merged =
         [(''a'', JStr ''a'')] \<and>
       list_all (\<lambda>(l, r). final_mapping (Normalized_School_Name_csv (csv_named l)) \<noteq>
                   Some (Mapped_Normalized_Name l)) merged
   | (Inl e, n') \<Rightarrow> False\<close>
  by code_simp

text \<open>
  Claim C8, amended. In a run on tables of ASCII names that returns, every row of the
  merged table has the normalized name of its stripped raw name, and its mapped name is
  the value of the final mapping at the normalized name, whatever JSON value that is,
  unless the name is no key or the value is missing (\<open>None\<close> or \<open>NaN\<close>), in which case
  it is the normalized name itself; the target part of the row is a target row whose
  normalized key is the mapped name, or missing when there is no such target row. A row
  of the filtered source table whose mapped name is the key of no target row appears in
  the merged table once for each of its occurrences in the filtered source table, each
  time with all target columns missing, and in no other way.
\<close>

theorem mapped_name_fallback:
  assumes "process_dataset ratio post loads dumps validate csv_df excel_df cached_mapping n =
      (Inr (merged, final_mapping), n')"
    and "ascii_names csv_df excel_df"
  shows "(\<forall>(l, r)\<in>set merged.
            Normalized_School_Name_csv (csv_named l) =
              normalize_school_name (map_option strip (School_Name (csv_source (csv_named l)))) \<and>
            Mapped_Normalized_Name l =
              (case final_mapping (Normalized_School_Name_csv (csv_named l)) of
                 None \<Rightarrow> JStr (Normalized_School_Name_csv (csv_named l))
               | Some v \<Rightarrow>
                   if v = JNull \<or> v = JNum NaN
                   then JStr (Normalized_School_Name_csv (csv_named l)) else v) \<and>
            (case r of
               None \<Rightarrow> \<forall>e\<in>set excel_df.
                   JStr (Normalized_School_Name_excel (name_excel_row e)) \<noteq>
                     Mapped_Normalized_Name l
             | Some e \<Rightarrow> e \<in> name_excel_row ` set excel_df \<and>
                   JStr (Normalized_School_Name_excel e) = Mapped_Normalized_Name l)) \<and>
         (\<forall>source\<in>set (filter_test_schools csv_df).
            (\<forall>e\<in>set excel_df. JStr (Normalized_School_Name_excel (name_excel_row e)) \<noteq>
                Mapped_Normalized_Name (map_csv_row final_mapping (name_csv_row source))) \<longrightarrow>
            filter (\<lambda>(l, r). csv_source (csv_named l) = source) merged =
              replicate (count_list (filter_test_schools csv_df) source)
                (map_csv_row final_mapping (name_csv_row source), None))"
proof (intro conjI ballI impI)
  let ?kept = "filter_test_schools csv_df"
  let ?mapped = "\<lambda>s. map_csv_row final_mapping (name_csv_row s)"
  let ?matching = "\<lambda>s. filter (\<lambda>e. JStr (Normalized_School_Name_excel e) =
      Mapped_Normalized_Name (?mapped s)) (map name_excel_row excel_df)"
  fix source
  assume s: "source \<in> set ?kept"
    and none: "\<forall>e\<in>set excel_df. JStr (Normalized_School_Name_excel (name_excel_row e)) \<noteq>
        Mapped_Normalized_Name (?mapped source)"
  have empty: "?matching source = []"
    using none by (simp add: filter_empty_conv)
  have block: "filter (\<lambda>(l, r). csv_source (csv_named l) = source)
      (joined (?mapped t) (?matching t)) =
      (if t = source then [(?mapped source, None)] else [])" for t
  proof (cases "t = source")
    case True
    then show ?thesis
      unfolding filter_joined by (simp add: source_of_mapped empty joined_def)
  next
    case False
    then show ?thesis
      unfolding filter_joined by (simp add: source_of_mapped)
  qed
  have "filter (\<lambda>(l, r). csv_source (csv_named l) = source) merged =
      concat (map (\<lambda>t. filter (\<lambda>(l, r). csv_source (csv_named l) = source)
        (joined (?mapped t) (?matching t))) ?kept)"
    unfolding merged_blocks[OF assms(1)] by (simp add: filter_concat o_def)
  also have "\<dots> = concat (map (\<lambda>t. if t = source then [(?mapped source, None)] else []) ?kept)"
    unfolding block ..
  also have "\<dots> = replicate (count_list ?kept source) (?mapped source, None)"
    by (rule concat_singletons)
  finally show "filter (\<lambda>(l, r). csv_source (csv_named l) = source) merged =
      replicate (count_list ?kept source) (?mapped source, None)" .
next
  note m = process_dataset_merged[OF assms(1)]
  fix x assume x: "x \<in> set merged"
  obtain l r where lr: "x = (l, r)" by (cases x)
  have "(l, r) \<in> set (merge_left
      (map (map_csv_row final_mapping) (map name_csv_row (filter_test_schools csv_df)))
      (map name_excel_row excel_df) Mapped_Normalized_Name
      (JStr \<circ> Normalized_School_Name_excel))"
    using x lr m by simp
  then have mem: "l \<in> set (map (map_csv_row final_mapping) (map name_csv_row (filter_test_schools csv_df)))"
    and right: "case r of
        None \<Rightarrow> \<forall>e\<in>set (map name_excel_row excel_df).
            (JStr \<circ> Normalized_School_Name_excel) e \<noteq> Mapped_Normalized_Name l
      | Some e \<Rightarrow> e \<in> set (map name_excel_row excel_df) \<and>
            (JStr \<circ> Normalized_School_Name_excel) e = Mapped_Normalized_Name l"
    unfolding set_merge_left by blast+
  from mem obtain row where l: "l = map_csv_row final_mapping (name_csv_row row)" by auto
  have key: "Normalized_School_Name_csv (csv_named l) =
      normalize_school_name (map_option strip (School_Name (csv_source (csv_named l))))"
    unfolding l by (simp add: map_csv_row_def name_csv_row_def)
  have mapped: "Mapped_Normalized_Name l =
      (case final_mapping (Normalized_School_Name_csv (csv_named l)) of
         None \<Rightarrow> JStr (Normalized_School_Name_csv (csv_named l))
       | Some v \<Rightarrow>
           if v = JNull \<or> v = JNum NaN
           then JStr (Normalized_School_Name_csv (csv_named l)) else v)"
    unfolding l by (simp add: map_csv_row_def map_fillna_def isna_def split: option.split)
  have target: "case r of
        None \<Rightarrow> \<forall>e\<in>set excel_df.
            JStr (Normalized_School_Name_excel (name_excel_row e)) \<noteq> Mapped_Normalized_Name l
      | Some e \<Rightarrow> e \<in> name_excel_row ` set excel_df \<and>
            JStr (Normalized_School_Name_excel e) = Mapped_Normalized_Name l"
    using right by (cases r) auto
  show "case x of (l, r) \<Rightarrow>
      Normalized_School_Name_csv (csv_named l) =
        normalize_school_name (map_option strip (School_Name (csv_source (csv_named l)))) \<and>
      Mapped_Normalized_Name l =
        (case final_mapping (Normalized_School_Name_csv (csv_named l)) of
           None \<Rightarrow> JStr (Normalized_School_Name_csv (csv_named l))
         | Some v \<Rightarrow>
             if v = JNull \<or> v = JNum NaN
             then JStr (Normalized_School_Name_csv (csv_named l)) else v) \<and>
      (case r of
         None \<Rightarrow> \<forall>e\<in>set excel_df.
             JStr (Normalized_School_Name_excel (name_excel_row e)) \<noteq> Mapped_Normalized_Name l
       | Some e \<Rightarrow> e \<in> name_excel_row ` set excel_df \<and>
             JStr (Normalized_School_Name_excel e) = Mapped_Normalized_Name l)"
    unfolding lr using key mapped target by simp
qed

text \<open>The amended claim on a run in which the resolver's reply holds no object, so that
  "Zeta Academy", which occurs twice in the source table, stays unmapped and no target
  row matches it.\<close>

theorem mapped_name_fallback_witness:
  "\<exists>merged final_mapping n'.
     process_dataset example_ratio example_service example_loads example_dumps example_validate
       [\<lparr>School_Name = Some ''Zeta Academy'', csv_columns = ()\<rparr>,
        \<lparr>School_Name = Some ''Aldrin Elementary School'', csv_columns = ()\<rparr>,
        \<lparr>School_Name = Some ''Zeta Academy'', csv_columns = ()\<rparr>]
       [\<lparr>School_Name_excel = Some ''Aldrin ES'', excel_columns = ()\<rparr>]
       None \<lparr>world = [''sorry''], sent = []\<rparr> = (Inr (merged, final_mapping), n') \<and>
     ascii_names
       [\<lparr>School_Name = Some ''Zeta Academy'', csv_columns = ()\<rparr>,
        \<lparr>School_Name = Some ''Aldrin Elementary School'', csv_columns = ()\<rparr>,
        \<lparr>School_Name = Some ''Zeta Academy'', csv_columns = ()\<rparr>]
       [\<lparr>School_Name_excel = Some ''Aldrin ES'', excel_columns = ()\<rparr>] \<and>
     final_mapping ''zeta acad'' = None \<and>
     Mapped_Normalized_Name (map_csv_row final_mapping
       (name_csv_row \<lparr>School_Name = Some ''Zeta Academy'', csv_columns = ()\<rparr>)) = JStr ''zeta acad'' \<and>
     filter (\<lambda>(l, r). csv_source (csv_named l) = \<lparr>School_Name = Some ''Zeta Academy'', csv_columns = ()\<rparr>)
       merged =
       replicate 2 (map_csv_row final_mapping
         (name_csv_row \<lparr>School_Name = Some ''Zeta Academy'', csv_columns = ()\<rparr>), None)"
proof -
  let ?zeta = "\<lparr>School_Name = Some ''Zeta Academy'', csv_columns = ()\<rparr>"
  let ?csv = "[?zeta, \<lparr>School_Name = Some ''Aldrin Elementary School'', csv_columns = ()\<rparr>, ?zeta]"
  let ?excel = "[\<lparr>School_Name_excel = Some ''Aldrin ES'', excel_columns = ()\<rparr>]"
  have "case process_dataset example_ratio example_service example_loads example_dumps
       example_validate ?csv ?excel None \<lparr>world = [''sorry''], sent = []\<rparr> of
         (Inr (m, f), n) \<Rightarrow> f ''zeta acad'' = None | (Inl e, n) \<Rightarrow> False"
    by code_simp
  then obtain merged final_mapping n' where
    eq: "process_dataset example_ratio example_service example_loads example_dumps
       example_validate ?csv ?excel None \<lparr>world = [''sorry''], sent = []\<rparr> =
       (Inr (merged, final_mapping), n')"
    and unmapped: "final_mapping ''zeta acad'' = None"
    by (auto split: prod.splits sum.splits)
  have a: "ascii_names ?csv ?excel"
    by code_simp
  have key: "Normalized_School_Name_csv (name_csv_row ?zeta) = ''zeta acad''"
    by code_simp
  have mapped: "Mapped_Normalized_Name (map_csv_row final_mapping (name_csv_row ?zeta)) =
      JStr ''zeta acad''"
    using key unmapped by (simp add: map_csv_row_def map_fillna_def)
  have kept: "?zeta \<in> set (filter_test_schools ?csv)"
    by code_simp
  have twice: "count_list (filter_test_schools ?csv) ?zeta = 2"
    by code_simp
  have "\<forall>e\<in>set ?excel. JStr (Normalized_School_Name_excel (name_excel_row e)) \<noteq> JStr ''zeta acad''"
    by code_simp
  then have nomatch: "\<forall>e\<in>set ?excel. JStr (Normalized_School_Name_excel (name_excel_row e)) \<noteq>
      Mapped_Normalized_Name (map_csv_row final_mapping (name_csv_row ?zeta))"
    unfolding mapped .
  have rows: "filter (\<lambda>(l, r). csv_source (csv_named l) = ?zeta) merged =
      replicate 2 (map_csv_row final_mapping (name_csv_row ?zeta), None)"
    using mapped_name_fallback [OF eq a, THEN conjunct2, THEN bspec, OF kept, THEN mp, OF nomatch]
    unfolding twice .
  show ?thesis
    by (rule exI[of _ merged], rule exI[of _ final_mapping], rule exI[of _ n'])
      (intro conjI eq a unmapped mapped rows)
qed

text \<open>
  Claim C9. In a run on tables of ASCII names that returns, the source rows of the merged
  table are, in their order and each at least once, the rows of the loaded source table
  whose raw \<open>School_Name\<close> is none of the three placeholder names: a row with a
  placeholder name is absent from the merged table, and every other row is retained, a
  row that occurs several times as often as it occurs. The comparison is with the raw
  value, before the name is stripped and normalized.
\<close>

theorem placeholder_rows_removed:
  assumes "process_dataset ratio post loads dumps validate csv_df excel_df cached_mapping n =
      (Inr (merged, final_mapping), n')"
    and "ascii_names csv_df excel_df"
  shows "(\<exists>copies.
            length copies = length (filter (\<lambda>r. School_Name r \<notin>
              {Some ''Test Site Elementary School'', Some ''Test Site Elementary'',
               Some ''test site elementary school''}) csv_df) \<and>
            list_all (\<lambda>c. 1 \<le> c) copies \<and>
            map (csv_source \<circ> csv_named \<circ> fst) merged =
              concat (map (\<lambda>(c, source). replicate c source)
                (zip copies (filter (\<lambda>r. School_Name r \<notin>
                  {Some ''Test Site Elementary School'', Some ''Test Site Elementary'',
                   Some ''test site elementary school''}) csv_df)))) \<and>
         set (map (csv_source \<circ> csv_named \<circ> fst) merged) =
           {r \<in> set csv_df. School_Name r \<notin>
              {Some ''Test Site Elementary School'', Some ''Test Site Elementary'',
               Some ''test site elementary school''}}"
proof
  let ?kept = "filter (\<lambda>r. School_Name r \<notin>
      {Some ''Test Site Elementary School'', Some ''Test Site Elementary'',
       Some ''test site elementary school''}) csv_df"
  let ?copies = "\<lambda>source. max (1 :: nat) (length (filter
      (\<lambda>e. JStr (Normalized_School_Name_excel e) =
         Mapped_Normalized_Name (map_csv_row final_mapping (name_csv_row source)))
      (map name_excel_row excel_df)))"
  have sources: "map (csv_source \<circ> csv_named \<circ> fst) merged =
      concat (map (\<lambda>source. replicate (?copies source) source) ?kept)"
    using merged_sources[OF assms(1)] unfolding filter_test_schools_raw .
  have 1: "length (map ?copies ?kept) = length ?kept"
    by simp
  have 2: "list_all (\<lambda>c. 1 \<le> c) (map ?copies ?kept)"
    by (simp add: list_all_iff)
  have 3: "map (csv_source \<circ> csv_named \<circ> fst) merged =
      concat (map (\<lambda>(c, source). replicate c source) (zip (map ?copies ?kept) ?kept))"
    unfolding sources zip_counts ..
  show "\<exists>copies. length copies = length ?kept \<and> list_all (\<lambda>c. 1 \<le> c) copies \<and>
      map (csv_source \<circ> csv_named \<circ> fst) merged =
        concat (map (\<lambda>(c, source). replicate c source) (zip copies ?kept))"
    using 1 2 3 by blast
  have "set (map (csv_source \<circ> csv_named \<circ> fst) merged) = set ?kept"
    unfolding sources by (auto simp: in_set_replicate)
  then show "set (map (csv_source \<circ> csv_named \<circ> fst) merged) =
      {r \<in> set csv_df. School_Name r \<notin>
        {Some ''Test Site Elementary School'', Some ''Test Site Elementary'',
         Some ''test site elementary school''}}"
    by simp
qed

text \<open>The claim on a table with two placeholder rows, a row that occurs twice, and a
  placeholder name followed by a blank, which is no placeholder name.\<close>

theorem placeholder_rows_removed_witness:
  "\<exists>merged final_mapping n'.
     process_dataset example_ratio example_service example_loads example_dumps example_validate
       [\<lparr>School_Name = Some ''Test Site Elementary School'', csv_columns = ()\<rparr>,
        \<lparr>School_Name = Some ''Aldrin Elementary School'', csv_columns = ()\<rparr>,
        \<lparr>School_Name = Some ''Test Site Elementary '', csv_columns = ()\<rparr>,
        \<lparr>School_Name = Some ''Aldrin Elementary School'', csv_columns = ()\<rparr>,
        \<lparr>School_Name = Some ''Test Site Elementary'', csv_columns = ()\<rparr>]
       [\<lparr>School_Name_excel = Some ''Aldrin ES'', excel_columns = ()\<rparr>]
       None \<lparr>world = [''sorry''], sent = []\<rparr> = (Inr (merged, final_mapping), n') \<and>
     ascii_names
       [\<lparr>School_Name = Some ''Test Site Elementary School'', csv_columns = ()\<rparr>,
        \<lparr>School_Name = Some ''Aldrin Elementary School'', csv_columns = ()\<rparr>,
        \<lparr>School_Name = Some ''Test Site Elementary '', csv_columns = ()\<rparr>,
        \<lparr>School_Name = Some ''Aldrin Elementary School'', csv_columns = ()\<rparr>,
        \<lparr>School_Name = Some ''Test Site Elementary'', csv_columns = ()\<rparr>]
       [\<lparr>School_Name_excel = Some ''Aldrin ES'', excel_columns = ()\<rparr>] \<and>
     (\<exists>copies. length copies = 3 \<and> list_all (\<lambda>c. 1 \<le> c) copies \<and>
        map (csv_source \<circ> csv_named \<circ> fst) merged =
          concat (map (\<lambda>(c, source). replicate c source)
            (zip copies
              [\<lparr>School_Name = Some ''Aldrin Elementary School'', csv_columns = ()\<rparr>,
               \<lparr>School_Name = Some ''Test Site Elementary '', csv_columns = ()\<rparr>,
               \<lparr>School_Name = Some ''Aldrin Elementary School'', csv_columns = ()\<rparr>])))"
proof -
  let ?csv = "[\<lparr>School_Name = Some ''Test Site Elementary School'', csv_columns = ()\<rparr>,
        \<lparr>School_Name = Some ''Aldrin Elementary School'', csv_columns = ()\<rparr>,
        \<lparr>School_Name = Some ''Test Site Elementary '', csv_columns = ()\<rparr>,
        \<lparr>School_Name = Some ''Aldrin Elementary School'', csv_columns = ()\<rparr>,
        \<lparr>School_Name = Some ''Test Site Elementary'', csv_columns = ()\<rparr>]"
  let ?excel = "[\<lparr>School_Name_excel = Some ''Aldrin ES'', excel_columns = ()\<rparr>]"
  have "case process_dataset example_ratio example_service example_loads example_dumps
       example_validate ?csv ?excel None \<lparr>world = [''sorry''], sent = []\<rparr> of
       (Inr (m, f), n) \<Rightarrow> True | (Inl e, n) \<Rightarrow> False"
    by code_simp
  from run_result[OF this] obtain merged final_mapping n' where
    eq: "process_dataset example_ratio example_service example_loads example_dumps
       example_validate ?csv ?excel None \<lparr>world = [''sorry''], sent = []\<rparr> =
       (Inr (merged, final_mapping), n')"
    by blast
  have a: "ascii_names ?csv ?excel"
    by code_simp
  have kept: "filter (\<lambda>r. School_Name r \<notin>
      {Some ''Test Site Elementary School'', Some ''Test Site Elementary'',
       Some ''test site elementary school''}) ?csv =
      [\<lparr>School_Name = Some ''Aldrin Elementary School'', csv_columns = ()\<rparr>,
       \<lparr>School_Name = Some ''Test Site Elementary '', csv_columns = ()\<rparr>,
       \<lparr>School_Name = Some ''Aldrin Elementary School'', csv_columns = ()\<rparr>]"
    by simp
  have rows: "\<exists>copies. length copies = 3 \<and> list_all (\<lambda>c. 1 \<le> c) copies \<and>
      map (csv_source \<circ> csv_named \<circ> fst) merged =
        concat (map (\<lambda>(c, source). replicate c source)
          (zip copies
            [\<lparr>School_Name = Some ''Aldrin Elementary School'', csv_columns = ()\<rparr>,
             \<lparr>School_Name = Some ''Test Site Elementary '', csv_columns = ()\<rparr>,
             \<lparr>School_Name = Some ''Aldrin Elementary School'', csv_columns = ()\<rparr>]))"
    using placeholder_rows_removed [OF eq a, THEN conjunct1] unfolding kept by (simp add: numeral_3_eq_3)
  show ?thesis
    by (rule exI[of _ merged], rule exI[of _ final_mapping], rule exI[of _ n'])
      (intro conjI eq a rows)
qed

end
